theory Spec2Isabelle
  imports Main "HOL-Library.AList" "HOL-Library.Multiset" "HOL-Library.Char_ord"
    "HOL-Library.List_Lexorder"
begin

section \<open>The masternode vote monitor (mn\_vote\_monitor.py)\<close>

text \<open>
  The monitor is a sequence of Python functions over a node client. The client belongs
  to a library, so every query of it is a parameter here: a field of the record
  \<open>node\<close>, which answers with a value (\<open>Inr\<close>) or raises (\<open>Inl\<close>). The monitor has no
  \<^verbatim>\<open>try\<close>: an exception of a query, or of the monitor's own code, ends the run, so
  every function returns \<open>error + 'a\<close> and passes the first \<open>Inl\<close> on.

  Python \<^verbatim>\<open>int\<close> is \<open>int\<close>, \<^verbatim>\<open>str\<close> is \<open>string\<close>; a \<^verbatim>\<open>PubKey\<close> and an
  \<^verbatim>\<open>Address\<close> are the strings that \<^verbatim>\<open>str\<close> makes of them. The constructor
  \<^verbatim>\<open>Address(address=..., network=CirrusMain())\<close> is the library's too: it raises
  \<^verbatim>\<open>ValueError\<close> on a string that it does not accept for the network, and which
  strings it accepts is one more parameter, the field \<open>valid_address\<close>. A \<^verbatim>\<open>dict\<close> keeps its
  keys in insertion order and the monitor iterates over dicts, so a dict is an association
  list: \<open>AList.update\<close> is \<^verbatim>\<open>d[k] = v\<close> (a present key keeps its place, a new key goes
  last), \<open>map_of\<close> is the lookup.
\<close>

subsection \<open>Errors and the node\<close>

datatype error = TypeError | IndexError | KeyError | ValueError | NodeError

record script_pubkey =
  type :: string
  addresses :: "string list"

record vout =
  script_pubkey :: script_pubkey

record transaction =
  vout :: "vout list"

record block =
  transactions :: "transaction list"

text \<open>
  The queries the monitor makes: \<^verbatim>\<open>node.federation.members()\<close>,
  \<^verbatim>\<open>node.federation.miner_at_height\<close> (\<open>None\<close> is Python's \<^verbatim>\<open>None\<close>),
  \<^verbatim>\<open>node.consensus.get_blockhash\<close>, \<^verbatim>\<open>node.blockstore.block\<close>,
  \<^verbatim>\<open>node.blockstore.get_block_count\<close>, \<^verbatim>\<open>node.federation.federation_at_height\<close>,
  and \<^verbatim>\<open>node.smart_contracts.local_call\<close> with the four method names of the contract
  (the field holds the \<^verbatim>\<open>return_obj\<close> of the response; an exception raised while the
  call is put together, as by the \<^verbatim>\<open>Address\<close> of a configured contract or sender
  address, is an \<open>Inl\<close> of the field). The last field says which strings the
  \<^verbatim>\<open>Address\<close> constructor accepts.
\<close>

record node =
  members :: "error + string list"
  miner_at_height :: "int \<Rightarrow> error + string option"
  get_blockhash :: "int \<Rightarrow> error + string"
  block :: "string \<Rightarrow> error + block"
  get_block_count :: "error + int"
  federation_at_height :: "int \<Rightarrow> error + string list"
  IsWhitelisted :: "string \<Rightarrow> error + bool"
  GetVote :: "int \<Rightarrow> string \<Rightarrow> error + int option"
  LastProposalId :: "error + int"
  GetVotingDeadline :: "int \<Rightarrow> error + int"
  valid_address :: "string \<Rightarrow> bool"

text \<open>
  \<^verbatim>\<open>Address(address=s, network=CirrusMain())\<close>, read back with \<^verbatim>\<open>str\<close>: the string
  \<open>s\<close> itself when the constructor accepts it, \<^verbatim>\<open>ValueError\<close> otherwise.
\<close>

definition Address :: "node \<Rightarrow> string \<Rightarrow> error + string" where
  "Address nd s = (if valid_address nd s then Inr s else Inl ValueError)"

text \<open>\<^verbatim>\<open>range(a, b)\<close>: the integers from \<open>a\<close> up to \<open>b - 1\<close>, none when \<open>b \<le> a\<close>.\<close>

definition range2 :: "int \<Rightarrow> int \<Rightarrow> int list" where
  "range2 a b = [a..b - 1]"

subsection \<open>The resolver: \<^verbatim>\<open>get_pubkey_and_address_for_height\<close>, \<^verbatim>\<open>get_address_to_fedkey_map\<close>\<close>

text \<open>
  The two nested \<^verbatim>\<open>for\<close> loops of \<^verbatim>\<open>get_pubkey_and_address_for_height\<close>. \<open>None\<close>:
  the loop ended without reaching \<^verbatim>\<open>return\<close>. \<open>Some (Inl IndexError)\<close>:
  \<^verbatim>\<open>script_pubkey.addresses[0]\<close> on an empty list. \<open>Some (Inl ValueError)\<close>: the
  \<^verbatim>\<open>Address\<close> constructor refused that string.
\<close>

fun vout_loop :: "node \<Rightarrow> vout list \<Rightarrow> (error + string) option" where
  "vout_loop nd [] = None"
| "vout_loop nd (v # vs) =
     (if type (script_pubkey v) \<in> set [''pubkey'', ''pubkeyhash'']
      then (case addresses (script_pubkey v) of
              [] \<Rightarrow> Some (Inl IndexError)
            | a # _ \<Rightarrow> Some (Address nd a))
      else vout_loop nd vs)"

fun transaction_loop :: "node \<Rightarrow> transaction list \<Rightarrow> (error + string) option" where
  "transaction_loop nd [] = None"
| "transaction_loop nd (t # ts) =
     (case vout_loop nd (vout t) of
        Some r \<Rightarrow> Some r
      | None \<Rightarrow> transaction_loop nd ts)"

text \<open>
  The function returns the pair \<^verbatim>\<open>pubkey, address\<close>, or falls off its end, which in
  Python returns \<^verbatim>\<open>None\<close>: the result \<open>Inr None\<close>.
\<close>

definition get_pubkey_and_address_for_height ::
  "node \<Rightarrow> int \<Rightarrow> error + (string option \<times> string) option" where
  "get_pubkey_and_address_for_height nd height =
     (case miner_at_height nd height of
        Inl e \<Rightarrow> Inl e
      | Inr pubkey \<Rightarrow>
     (case get_blockhash nd height of
        Inl e \<Rightarrow> Inl e
      | Inr block_hash \<Rightarrow>
     (case block nd block_hash of
        Inl e \<Rightarrow> Inl e
      | Inr blk \<Rightarrow>
     (case transaction_loop nd (transactions blk) of
        None \<Rightarrow> Inr None
      | Some (Inl e) \<Rightarrow> Inl e
      | Some (Inr address) \<Rightarrow> Inr (Some (pubkey, address))))))"

text \<open>
  The loop of \<^verbatim>\<open>get_address_to_fedkey_map\<close> over the heights. The assignment
  \<^verbatim>\<open>pubkey, address = ...\<close> unpacks the result: unpacking \<^verbatim>\<open>None\<close> raises
  \<^verbatim>\<open>TypeError\<close>.
\<close>

fun height_loop ::
  "node \<Rightarrow> int list \<Rightarrow> (string \<times> string) list \<Rightarrow> error + (string \<times> string) list" where
  "height_loop nd [] fedkey_to_address_map = Inr fedkey_to_address_map"
| "height_loop nd (i # rest) fedkey_to_address_map =
     (case get_pubkey_and_address_for_height nd i of
        Inl e \<Rightarrow> Inl e
      | Inr None \<Rightarrow> Inl TypeError
      | Inr (Some (pubkey, address)) \<Rightarrow>
          height_loop nd rest
            (case pubkey of
               None \<Rightarrow> fedkey_to_address_map
             | Some pk \<Rightarrow>
                 if pk \<notin> fst ` set fedkey_to_address_map
                 then AList.update pk address fedkey_to_address_map
                 else fedkey_to_address_map))"

text \<open>
  The first half of \<^verbatim>\<open>get_address_to_fedkey_map\<close>, up to the comment
  \<^verbatim>\<open># Reverse the mapping.\<close>: the dict \<^verbatim>\<open>fedkey_to_address_map\<close>.
\<close>

definition fedkey_to_address_map :: "node \<Rightarrow> int \<Rightarrow> error + (string \<times> string) list" where
  "fedkey_to_address_map nd lookback =
     (case get_block_count nd of
        Inl e \<Rightarrow> Inl e
      | Inr current_block_height \<Rightarrow>
          (let starting_block_height = current_block_height - lookback
           in height_loop nd (range2 starting_block_height current_block_height) []))"

text \<open>The dict comprehension \<^verbatim>\<open>{str(v): k for k, v in fedkey_to_address_map.items()}\<close>.\<close>

definition reverse_mapping :: "(string \<times> string) list \<Rightarrow> (string \<times> string) list" where
  "reverse_mapping d = foldl (\<lambda>acc (k, v). AList.update v k acc) [] d"

definition get_address_to_fedkey_map :: "node \<Rightarrow> int \<Rightarrow> error + (string \<times> string) list" where
  "get_address_to_fedkey_map nd lookback =
     (case fedkey_to_address_map nd lookback of
        Inl e \<Rightarrow> Inl e
      | Inr d \<Rightarrow> Inr (reverse_mapping d))"

subsection \<open>The contract's read calls\<close>

text \<open>
  Each of these wraps one \<^verbatim>\<open>local_call\<close> and returns its \<^verbatim>\<open>return_obj\<close>.
\<close>

definition check_if_address_is_dao_whitelisted :: "node \<Rightarrow> string \<Rightarrow> error + bool" where
  "check_if_address_is_dao_whitelisted nd address = IsWhitelisted nd address"

definition get_last_proposal_id :: "node \<Rightarrow> error + int" where
  "get_last_proposal_id nd = LastProposalId nd"

definition get_proposal_ending_height :: "node \<Rightarrow> int \<Rightarrow> error + int" where
  "get_proposal_ending_height nd proposal_id = GetVotingDeadline nd proposal_id"

text \<open>
  The \<^verbatim>\<open>GetVote\<close> call also leaves a trace: the log of the \<^verbatim>\<open>GetVote\<close> queries issued
  so far, each with its proposal id and address, is passed in and returned extended.
\<close>

type_synonym getvote_log = "(int \<times> string) list"

definition get_address_proposal_vote ::
  "node \<Rightarrow> int \<Rightarrow> string \<Rightarrow> getvote_log \<Rightarrow> error + (int option \<times> getvote_log)" where
  "get_address_proposal_vote nd proposal_id address log =
     (case GetVote nd proposal_id address of
        Inl e \<Rightarrow> Inl e
      | Inr vote \<Rightarrow> Inr (vote, log @ [(proposal_id, address)]))"

definition get_current_federation_pubkeys :: "node \<Rightarrow> error + string list" where
  "get_current_federation_pubkeys nd = members nd"

subsection \<open>\<^verbatim>\<open>find_whitelisted_federation_addresses\<close>\<close>

text \<open>
  The loop first rebinds \<^verbatim>\<open>address\<close> to \<^verbatim>\<open>Address(address=address, ...)\<close>, then
  checks it and appends its \<^verbatim>\<open>str\<close>.
\<close>

fun whitelist_loop :: "node \<Rightarrow> string list \<Rightarrow> string list \<Rightarrow> error + string list" where
  "whitelist_loop nd [] federation_addresses = Inr federation_addresses"
| "whitelist_loop nd (address # rest) federation_addresses =
     (case Address nd address of
        Inl e \<Rightarrow> Inl e
      | Inr address' \<Rightarrow>
     (case check_if_address_is_dao_whitelisted nd address' of
        Inl e \<Rightarrow> Inl e
      | Inr is_whitelisted \<Rightarrow>
          whitelist_loop nd rest
            (if is_whitelisted then federation_addresses @ [address']
             else federation_addresses)))"

definition find_whitelisted_federation_addresses ::
  "node \<Rightarrow> string list \<Rightarrow> error + string list" where
  "find_whitelisted_federation_addresses nd payout_address_list =
     whitelist_loop nd payout_address_list []"

subsection \<open>\<^verbatim>\<open>get_last_completed_proposal_id\<close>\<close>

fun completed_loop :: "node \<Rightarrow> int \<Rightarrow> int list \<Rightarrow> int \<Rightarrow> error + int" where
  "completed_loop nd current_block_height [] best_completed_proposal_id =
     Inr best_completed_proposal_id"
| "completed_loop nd current_block_height (index # rest) best_completed_proposal_id =
     (let proposal_id = index + 1 in
      case get_proposal_ending_height nd proposal_id of
        Inl e \<Rightarrow> Inl e
      | Inr ending_height \<Rightarrow>
          completed_loop nd current_block_height rest
            (if ending_height < current_block_height \<and> ending_height \<noteq> 0
             then proposal_id else best_completed_proposal_id))"

definition get_last_completed_proposal_id :: "node \<Rightarrow> int \<Rightarrow> error + int" where
  "get_last_completed_proposal_id nd highest_proposal_id =
     (case get_block_count nd of
        Inl e \<Rightarrow> Inl e
      | Inr current_block_height \<Rightarrow>
          completed_loop nd current_block_height (range2 0 highest_proposal_id) 1)"

subsection \<open>\<^verbatim>\<open>tabulate_fed_member_votes\<close>\<close>

text \<open>The dict \<^verbatim>\<open>{'NoVote': [], 'No': [], 'Yes': []}\<close> of one address.\<close>

record votes =
  NoVote :: "int list"
  No :: "int list"
  Yes :: "int list"

text \<open>
  \<^verbatim>\<open>fed_member_votes[address][...].append(proposal_id)\<close>: the lookup of the address
  raises \<^verbatim>\<open>KeyError\<close> on a missing key, the append changes the entry in place.
\<close>

definition append_vote ::
  "string \<Rightarrow> (votes \<Rightarrow> votes) \<Rightarrow> (string \<times> votes) list \<Rightarrow> error + (string \<times> votes) list" where
  "append_vote address f fed_member_votes =
     (case map_of fed_member_votes address of
        None \<Rightarrow> Inl KeyError
      | Some v \<Rightarrow> Inr (AList.update address (f v) fed_member_votes))"

fun proposal_loop ::
  "node \<Rightarrow> string \<Rightarrow> int list \<Rightarrow> (string \<times> votes) list \<Rightarrow> getvote_log \<Rightarrow>
     error + ((string \<times> votes) list \<times> getvote_log)" where
  "proposal_loop nd address [] fed_member_votes log = Inr (fed_member_votes, log)"
| "proposal_loop nd address (index # rest) fed_member_votes log =
     (let proposal_id = index + 1 in
      case get_address_proposal_vote nd proposal_id address log of
        Inl e \<Rightarrow> Inl e
      | Inr (vote, log') \<Rightarrow>
          (case (if vote = Some 0
                 then append_vote address (\<lambda>v. v\<lparr>NoVote := NoVote v @ [proposal_id]\<rparr>)
                        fed_member_votes
                 else if vote = Some 1
                 then append_vote address (\<lambda>v. v\<lparr>No := No v @ [proposal_id]\<rparr>)
                        fed_member_votes
                 else if vote = Some 2
                 then append_vote address (\<lambda>v. v\<lparr>Yes := Yes v @ [proposal_id]\<rparr>)
                        fed_member_votes
                 else Inr fed_member_votes) of
             Inl e \<Rightarrow> Inl e
           | Inr fed_member_votes' \<Rightarrow> proposal_loop nd address rest fed_member_votes' log'))"

fun address_loop ::
  "node \<Rightarrow> int \<Rightarrow> string list \<Rightarrow> (string \<times> votes) list \<Rightarrow> getvote_log \<Rightarrow>
     error + ((string \<times> votes) list \<times> getvote_log)" where
  "address_loop nd num_sda_proposals [] fed_member_votes log = Inr (fed_member_votes, log)"
| "address_loop nd num_sda_proposals (address # rest) fed_member_votes log =
     (case proposal_loop nd address (range2 0 num_sda_proposals)
             (AList.update address \<lparr>NoVote = [], No = [], Yes = []\<rparr> fed_member_votes) log of
        Inl e \<Rightarrow> Inl e
      | Inr (fed_member_votes', log') \<Rightarrow>
          address_loop nd num_sda_proposals rest fed_member_votes' log')"

definition tabulate_fed_member_votes ::
  "node \<Rightarrow> string list \<Rightarrow> int \<Rightarrow> getvote_log \<Rightarrow>
     error + ((string \<times> votes) list \<times> getvote_log)" where
  "tabulate_fed_member_votes nd current_whitelisted_fed_addresses num_sda_proposals log =
     address_loop nd num_sda_proposals current_whitelisted_fed_addresses [] log"

subsection \<open>\<^verbatim>\<open>filter_eligible_fedkeys\<close>\<close>

text \<open>
  The dict comprehension with its condition \<^verbatim>\<open>address_to_fedkey_map[k] in ...\<close>,
  which raises \<^verbatim>\<open>KeyError\<close> on an address the map does not have.
\<close>

fun eligible_loop ::
  "string list \<Rightarrow> (string \<times> string) list \<Rightarrow> (string \<times> votes) list \<Rightarrow>
     (string \<times> votes) list \<Rightarrow> error + (string \<times> votes) list" where
  "eligible_loop federation address_to_fedkey_map [] filtered = Inr filtered"
| "eligible_loop federation address_to_fedkey_map ((k, v) # rest) filtered =
     (case map_of address_to_fedkey_map k of
        None \<Rightarrow> Inl KeyError
      | Some fedkey \<Rightarrow>
          eligible_loop federation address_to_fedkey_map rest
            (if fedkey \<in> set federation then AList.update k v filtered else filtered))"

definition filter_eligible_fedkeys ::
  "node \<Rightarrow> (string \<times> votes) list \<Rightarrow> (string \<times> string) list \<Rightarrow> int \<Rightarrow>
     error + (string \<times> votes) list" where
  "filter_eligible_fedkeys nd fed_member_votes address_to_fedkey_map best_proposal_id =
     (case get_proposal_ending_height nd (best_proposal_id - 2) of
        Inl e \<Rightarrow> Inl e
      | Inr ending_height_for_third_last_proposal \<Rightarrow>
     (case federation_at_height nd ending_height_for_third_last_proposal of
        Inl e \<Rightarrow> Inl e
      | Inr federation_at_end_of_third_last_proposal \<Rightarrow>
          eligible_loop federation_at_end_of_third_last_proposal address_to_fedkey_map
            fed_member_votes []))"

subsection \<open>\<^verbatim>\<open>get_nonvoting_fedkeys_in_last_3_proposals\<close>\<close>

fun nonvoting_loop ::
  "(string \<times> string) list \<Rightarrow> int \<Rightarrow> (string \<times> votes) list \<Rightarrow> string list \<Rightarrow>
     error + string list" where
  "nonvoting_loop address_to_fedkey_map best_proposal_id [] out = Inr out"
| "nonvoting_loop address_to_fedkey_map best_proposal_id ((k, v) # rest) out =
     (if best_proposal_id \<in> set (NoVote v) \<and> best_proposal_id - 1 \<in> set (NoVote v)
         \<and> best_proposal_id - 2 \<in> set (NoVote v)
      then (case map_of address_to_fedkey_map k of
              None \<Rightarrow> Inl KeyError
            | Some fedkey \<Rightarrow>
                nonvoting_loop address_to_fedkey_map best_proposal_id rest (out @ [fedkey]))
      else nonvoting_loop address_to_fedkey_map best_proposal_id rest out)"

definition get_nonvoting_fedkeys_in_last_3_proposals ::
  "(string \<times> string) list \<Rightarrow> (string \<times> votes) list \<Rightarrow> int \<Rightarrow> error + string list" where
  "get_nonvoting_fedkeys_in_last_3_proposals address_to_fedkey_map fed_member_votes
       best_proposal_id =
     nonvoting_loop address_to_fedkey_map best_proposal_id fed_member_votes []"

subsection \<open>\<^verbatim>\<open>markdown_format_output\<close>\<close>

text \<open>\<^verbatim>\<open>sep.join(xs)\<close>.\<close>

fun join :: "string \<Rightarrow> string list \<Rightarrow> string" where
  "join sep [] = []"
| "join sep [x] = x"
| "join sep (x # y # ys) = x @ sep @ join sep (y # ys)"

definition header :: string where
  "header = ''**The following fedkeys were eligible and have not voted for the last 3 completed proposal votes:**''"

text \<open>
  \<^verbatim>\<open>list.sort()\<close> on strings is the lexicographic order on the characters, the order of
  \<open>string\<close> here.
\<close>

definition markdown_format_output :: "string list \<Rightarrow> string" where
  "markdown_format_output nonvoting_fedkeys =
     (let output = [header];
          nonvoting_fedkeys = map (\<lambda>fedkey. ''- '' @ fedkey) nonvoting_fedkeys;
          nonvoting_fedkeys = sort nonvoting_fedkeys;
          output = output @ nonvoting_fedkeys
      in join [CHR 0x0A] output)"

subsection \<open>\<^verbatim>\<open>run_vote_monitor\<close>\<close>

text \<open>
  The run on a node, with the stages in the order of the source. It returns the report and
  the log of the \<^verbatim>\<open>GetVote\<close> queries it issued.
\<close>

definition run_vote_monitor :: "node \<Rightarrow> error + (string \<times> getvote_log)" where
  "run_vote_monitor nd =
     (case get_current_federation_pubkeys nd of
        Inl e \<Rightarrow> Inl e
      | Inr pubkeys \<Rightarrow>
     (let num_fed_members = int (length pubkeys) in
      case get_address_to_fedkey_map nd (num_fed_members * 3) of
        Inl e \<Rightarrow> Inl e
      | Inr address_to_fedkey_map \<Rightarrow>
     (case get_last_proposal_id nd of
        Inl e \<Rightarrow> Inl e
      | Inr highest_proposal_id \<Rightarrow>
     (case get_last_completed_proposal_id nd highest_proposal_id of
        Inl e \<Rightarrow> Inl e
      | Inr num_sda_proposals \<Rightarrow>
     (case find_whitelisted_federation_addresses nd (map fst address_to_fedkey_map) of
        Inl e \<Rightarrow> Inl e
      | Inr current_whitelisted_fed_addresses \<Rightarrow>
     (case tabulate_fed_member_votes nd current_whitelisted_fed_addresses
             num_sda_proposals [] of
        Inl e \<Rightarrow> Inl e
      | Inr (fed_member_votes, log) \<Rightarrow>
     (case filter_eligible_fedkeys nd fed_member_votes address_to_fedkey_map
             num_sda_proposals of
        Inl e \<Rightarrow> Inl e
      | Inr fed_member_votes' \<Rightarrow>
     (case get_nonvoting_fedkeys_in_last_3_proposals address_to_fedkey_map
             fed_member_votes' num_sda_proposals of
        Inl e \<Rightarrow> Inl e
      | Inr nonvoting_fedkeys \<Rightarrow>
          Inr (markdown_format_output nonvoting_fedkeys, log)))))))))"

subsection \<open>Example chains\<close>

text \<open>
  A block whose only transaction has one output, of script type \<open>t\<close>, paying \<open>a\<close>; and a
  node that answers from tables: the tip, the chain (height, producer, block hash, block),
  the current members, the federation it reports at every height, the whitelist, the
  (proposal, address) pairs without a vote (every other vote is a \<^verbatim>\<open>Yes\<close>, code 2) and
  the voting deadlines of the proposals 1, 2, ... (0 for any other id). Its \<^verbatim>\<open>Address\<close>
  constructor accepts every string but the empty one.
\<close>

definition pay_block :: "string \<Rightarrow> string \<Rightarrow> block" where
  "pay_block t a =
     \<lparr>transactions = [\<lparr>vout = [\<lparr>script_pubkey = \<lparr>type = t, addresses = [a]\<rparr>\<rparr>]\<rparr>]\<rparr>"

definition table_node ::
  "int \<Rightarrow> (int \<times> string option \<times> string \<times> block) list \<Rightarrow> string list \<Rightarrow> string list \<Rightarrow>
   string list \<Rightarrow> (int \<times> string) list \<Rightarrow> int list \<Rightarrow> node" where
  "table_node tip chain mem fed whitelist unvoted deadlines =
     \<lparr>members = Inr mem,
      miner_at_height =
        (\<lambda>h. case map_of chain h of None \<Rightarrow> Inl NodeError | Some (pk, bh, b) \<Rightarrow> Inr pk),
      get_blockhash =
        (\<lambda>h. case map_of chain h of None \<Rightarrow> Inl NodeError | Some (pk, bh, b) \<Rightarrow> Inr bh),
      block =
        (\<lambda>bh. case find (\<lambda>(h, pk, bh', b). bh' = bh) chain of
                None \<Rightarrow> Inl NodeError
              | Some (h, pk, bh', b) \<Rightarrow> Inr b),
      get_block_count = Inr tip,
      federation_at_height = (\<lambda>h. Inr fed),
      IsWhitelisted = (\<lambda>a. Inr (a \<in> set whitelist)),
      GetVote = (\<lambda>p a. Inr (if (p, a) \<in> set unvoted then Some 0 else Some 2)),
      LastProposalId = Inr (int (length deadlines)),
      GetVotingDeadline =
        (\<lambda>p. Inr (if 1 \<le> p \<and> p \<le> int (length deadlines)
                   then deadlines ! nat (p - 1) else 0)),
      valid_address = (\<lambda>a. a \<noteq> [])\<rparr>"

text \<open>
  The chain of the specification's first-seen example: heights 100 to 104, tip 105.
\<close>

definition first_seen_chain :: "(int \<times> string option \<times> string \<times> block) list" where
  "first_seen_chain =
     [(100, Some ''PKA'', ''h100'', pay_block ''pubkeyhash'' ''A''),
      (101, Some ''PKB'', ''h101'', pay_block ''pubkey'' ''B''),
      (102, Some ''PKA'', ''h102'', pay_block ''pubkeyhash'' ''A2''),
      (103, Some ''PKC'', ''h103'', pay_block ''pubkeyhash'' ''C''),
      (104, Some ''PKB'', ''h104'', pay_block ''pubkeyhash'' ''B2'')]"

definition first_seen_node :: node where
  "first_seen_node = table_node 105 first_seen_chain [] [] [] [] []"

text \<open>
  A chain of six blocks that two producers sign in turn, each paid to its own address.
  Both addresses are whitelisted and neither has voted; only \<open>PKA\<close> is in the federation
  that the node reports at the checkpoint.
\<close>

definition two_member_chain :: "(int \<times> string option \<times> string \<times> block) list" where
  "two_member_chain =
     [(0, Some ''PKA'', ''h0'', pay_block ''pubkeyhash'' ''A''),
      (1, Some ''PKB'', ''h1'', pay_block ''pubkeyhash'' ''B''),
      (2, Some ''PKA'', ''h2'', pay_block ''pubkeyhash'' ''A''),
      (3, Some ''PKB'', ''h3'', pay_block ''pubkeyhash'' ''B''),
      (4, Some ''PKA'', ''h4'', pay_block ''pubkeyhash'' ''A''),
      (5, Some ''PKB'', ''h5'', pay_block ''pubkeyhash'' ''B'')]"

definition unvoted_all :: "(int \<times> string) list" where
  "unvoted_all =
     [(1, ''A''), (2, ''A''), (3, ''A''), (1, ''B''), (2, ''B''), (3, ''B'')]"

text \<open>Three completed proposals (deadlines 1, 2, 3 below the tip 6), a fourth unscheduled.\<close>

definition three_proposal_node :: node where
  "three_proposal_node =
     table_node 6 two_member_chain [''PKA'', ''PKB''] [''PKA''] [''A'', ''B''] unvoted_all
       [1, 2, 3, 0]"

text \<open>The same chain with one completed proposal and with two.\<close>

definition one_proposal_node :: node where
  "one_proposal_node =
     table_node 6 two_member_chain [''PKA'', ''PKB''] [''PKA''] [''A'', ''B''] unvoted_all
       [1, 0]"

definition two_proposal_node :: node where
  "two_proposal_node =
     table_node 6 two_member_chain [''PKA'', ''PKB''] [''PKA''] [''A'', ''B''] unvoted_all
       [1, 2]"

text \<open>The specification's completion example: deadlines 50, 80, 120, 150, 0 at height 160.\<close>

definition windowing_node :: node where
  "windowing_node = table_node 160 [] [] [] [] [] [50, 80, 120, 150, 0]"

text \<open>Two producers paid to one address.\<close>

definition shared_address_node :: node where
  "shared_address_node =
     table_node 2
       [(0, Some ''PKA'', ''h0'', pay_block ''pubkeyhash'' ''A''),
        (1, Some ''PKB'', ''h1'', pay_block ''pubkeyhash'' ''A'')] [] [] [] [] []"

text \<open>
  A chain whose block at height 1 has no output of a recognized type, and one whose block
  at height 1 has no producer key.
\<close>

definition no_output_node :: node where
  "no_output_node =
     table_node 3
       [(0, Some ''PKA'', ''h0'', pay_block ''pubkeyhash'' ''A''),
        (1, Some ''PKB'', ''h1'', pay_block ''nulldata'' ''B''),
        (2, Some ''PKC'', ''h2'', pay_block ''pubkeyhash'' ''C'')] [] [] [] [] []"

definition no_producer_node :: node where
  "no_producer_node =
     table_node 3
       [(0, Some ''PKA'', ''h0'', pay_block ''pubkeyhash'' ''A''),
        (1, None, ''h1'', pay_block ''pubkeyhash'' ''B''),
        (2, Some ''PKC'', ''h2'', pay_block ''pubkeyhash'' ''C'')] [] [] [] [] []"

text \<open>
  A block of two transactions: the first has only a data output, the second pays \<open>X\<close>.
\<close>

definition second_transaction_block :: block where
  "second_transaction_block =
     \<lparr>transactions =
        [\<lparr>vout = [\<lparr>script_pubkey = \<lparr>type = ''nulldata'', addresses = []\<rparr>\<rparr>]\<rparr>,
         \<lparr>vout = [\<lparr>script_pubkey = \<lparr>type = ''pubkeyhash'', addresses = [''X'']\<rparr>\<rparr>]\<rparr>]\<rparr>"

definition second_transaction_node :: node where
  "second_transaction_node =
     table_node 1 [(0, Some ''PKA'', ''h0'', second_transaction_block)] [] [] [] [] []"

text \<open>
  A node that answers as \<open>nd\<close> does, except that its contract refuses a negative
  proposal id in the deadline query.
\<close>

definition rejecting_negative_ids :: "node \<Rightarrow> node" where
  "rejecting_negative_ids nd =
     nd\<lparr>GetVotingDeadline :=
          (\<lambda>p. if p < 0 then Inl NodeError else GetVotingDeadline nd p)\<rparr>"

section \<open>Properties\<close>

subsection \<open>The report\<close>

lemma append_le_iff: "(p @ x \<le> p @ y) = (x \<le> (y :: string))"
  by (induction p) auto

lemma sort_map_prefix: "sort (map ((@) p) xs) = map ((@) p) (sort (xs :: string list))"
  by (rule properties_for_sort) (simp_all add: sorted_map append_le_iff)

lemma join_lines: "join sep (x # xs) = x @ concat (map ((@) sep) xs)"
  by (induction xs arbitrary: x) simp_all

text \<open>
  C8. For every list \<open>ks\<close> of flagged keys, \<^verbatim>\<open>markdown_format_output\<close> returns the
  fixed header line followed, for each key of the ascending lexicographic arrangement
  \<open>ys\<close> of \<open>ks\<close> (sorted, with the same elements as often), by a newline and the bullet
  \<open>''- ''\<close> with the key. For \<open>[''zzz111'', ''aaa999'']\<close> the output is the header,
  then \<open>- aaa999\<close>, then \<open>- zzz111\<close>.
\<close>

theorem report_sorted_bullets:
  "(\<exists>ys. sorted ys \<and> mset ys = mset ks \<and>
      markdown_format_output ks =
        ''**The following fedkeys were eligible and have not voted for the last 3 completed proposal votes:**''
        @ concat (map (\<lambda>k. CHR 0x0A # ''- '' @ k) ys))
   \<and> markdown_format_output [''zzz111'', ''aaa999''] =
        ''**The following fedkeys were eligible and have not voted for the last 3 completed proposal votes:**''
        @ [CHR 0x0A] @ ''- aaa999'' @ [CHR 0x0A] @ ''- zzz111''"
proof -
  have bullets: "map ((@) [CHR 0x0A]) (map ((@) ''- '') ys) = map (\<lambda>k. CHR 0x0A # ''- '' @ k) ys"
    for ys :: "string list"
    by simp
  have "markdown_format_output ks =
      header @ concat (map ((@) [CHR 0x0A]) (map ((@) ''- '') (sort ks)))"
    unfolding markdown_format_output_def Let_def sort_map_prefix
    by (simp only: append_Cons append_Nil join_lines)
  then have "markdown_format_output ks =
      ''**The following fedkeys were eligible and have not voted for the last 3 completed proposal votes:**''
      @ concat (map (\<lambda>k. CHR 0x0A # ''- '' @ k) (sort ks))"
    unfolding bullets by (simp only: header_def)
  then have "\<exists>ys. sorted ys \<and> mset ys = mset ks \<and>
      markdown_format_output ks =
        ''**The following fedkeys were eligible and have not voted for the last 3 completed proposal votes:**''
        @ concat (map (\<lambda>k. CHR 0x0A # ''- '' @ k) ys)"
    by (intro exI [of _ "sort ks"]) simp
  moreover have "markdown_format_output [''zzz111'', ''aaa999''] =
        ''**The following fedkeys were eligible and have not voted for the last 3 completed proposal votes:**''
        @ [CHR 0x0A] @ ''- aaa999'' @ [CHR 0x0A] @ ''- zzz111''"
    by code_simp
  ultimately show ?thesis by blast
qed

subsection \<open>The last completed proposal\<close>

lemma completed_loop_snoc:
  "completed_loop nd cur (xs @ [x]) best =
     (case completed_loop nd cur xs best of
        Inl e \<Rightarrow> Inl e
      | Inr b \<Rightarrow> completed_loop nd cur [x] b)"
  by (induction xs arbitrary: best) (auto simp: Let_def split: sum.splits)

lemma completed_loop_upto:
  assumes "\<forall>i. 1 \<le> i \<and> i \<le> int n \<longrightarrow> GetVotingDeadline nd i = Inr (e i)"
  shows "\<exists>b. completed_loop nd cur [0..int n - 1] 1 = Inr b \<and>
             (if \<exists>i. 1 \<le> i \<and> i \<le> int n \<and> e i \<noteq> 0 \<and> e i < cur
              then 1 \<le> b \<and> b \<le> int n \<and> e b \<noteq> 0 \<and> e b < cur \<and>
                   (\<forall>i. 1 \<le> i \<and> i \<le> int n \<and> e i \<noteq> 0 \<and> e i < cur \<longrightarrow> i \<le> b)
              else b = 1)"
  using assms
proof (induction n)
  case 0
  then show ?case by simp
next
  case (Suc n)
  then obtain b where b: "completed_loop nd cur [0..int n - 1] 1 = Inr b"
    and spec: "if \<exists>i. 1 \<le> i \<and> i \<le> int n \<and> e i \<noteq> 0 \<and> e i < cur
              then 1 \<le> b \<and> b \<le> int n \<and> e b \<noteq> 0 \<and> e b < cur \<and>
                   (\<forall>i. 1 \<le> i \<and> i \<le> int n \<and> e i \<noteq> 0 \<and> e i < cur \<longrightarrow> i \<le> b)
              else b = 1"
    by fastforce
  have q: "GetVotingDeadline nd (int n + 1) = Inr (e (int n + 1))"
    using Suc.prems by simp
  let ?b' = "if e (int n + 1) < cur \<and> e (int n + 1) \<noteq> 0 then int n + 1 else b"
  have split: "[0..int (Suc n) - 1] = [0..int n - 1] @ [int n]"
    using upto_rec2 [of 0 "int n"] by simp
  have one: "completed_loop nd cur [int n] b = Inr ?b'"
    by (simp add: q get_proposal_ending_height_def Let_def)
  have res: "completed_loop nd cur [0..int (Suc n) - 1] 1 = Inr ?b'"
    unfolding split completed_loop_snoc b using one by simp
  show ?case
  proof (cases "e (int n + 1) < cur \<and> e (int n + 1) \<noteq> 0")
    case True
    have ex: "\<exists>i. 1 \<le> i \<and> i \<le> int (Suc n) \<and> e i \<noteq> 0 \<and> e i < cur"
      by (rule exI [of _ "int n + 1"]) (use True in simp)
    have "completed_loop nd cur [0..int (Suc n) - 1] 1 = Inr (int n + 1)"
      using res True by simp
    moreover have "1 \<le> int n + 1 \<and> int n + 1 \<le> int (Suc n) \<and> e (int n + 1) \<noteq> 0
        \<and> e (int n + 1) < cur
        \<and> (\<forall>i. 1 \<le> i \<and> i \<le> int (Suc n) \<and> e i \<noteq> 0 \<and> e i < cur \<longrightarrow> i \<le> int n + 1)"
      using True by simp
    ultimately show ?thesis
      using ex by (intro exI [of _ "int n + 1"]) (simp only: if_True, blast)
  next
    case False
    have same: "(1 \<le> i \<and> i \<le> int (Suc n) \<and> e i \<noteq> 0 \<and> e i < cur)
                  = (1 \<le> i \<and> i \<le> int n \<and> e i \<noteq> 0 \<and> e i < cur)" for i
    proof (cases "i = int n + 1")
      case True
      then show ?thesis using False by auto
    next
      case neq: False
      then show ?thesis by auto
    qed
    have r: "completed_loop nd cur [0..int (Suc n) - 1] 1 = Inr b"
      using res False by auto
    have le: "b \<le> int n \<Longrightarrow> b \<le> int (Suc n)" by simp
    have "if \<exists>i. 1 \<le> i \<and> i \<le> int (Suc n) \<and> e i \<noteq> 0 \<and> e i < cur
              then 1 \<le> b \<and> b \<le> int (Suc n) \<and> e b \<noteq> 0 \<and> e b < cur \<and>
                   (\<forall>i. 1 \<le> i \<and> i \<le> int (Suc n) \<and> e i \<noteq> 0 \<and> e i < cur \<longrightarrow> i \<le> b)
              else b = 1"
      unfolding same using spec le by (auto split: if_splits)
    with r show ?thesis by blast
  qed
qed

text \<open>
  C3. When the node answers the height query with \<open>cur\<close> and the deadline query of every
  proposal \<open>i\<close> of \<open>1..H\<close> with \<open>e i\<close>, \<^verbatim>\<open>get_last_completed_proposal_id\<close> returns the
  largest id of \<open>1..H\<close> whose ending height is nonzero and strictly below \<open>cur\<close>, and 1
  when no proposal qualifies. (The witness is the example of the specification: ending
  heights 50, 80, 120, 150, 0 and height 160 give 4.)
\<close>

theorem last_completed_is_largest:
  assumes "get_block_count nd = Inr cur"
    and "\<forall>i. 1 \<le> i \<and> i \<le> H \<longrightarrow> GetVotingDeadline nd i = Inr (e i)"
  shows "\<exists>b. get_last_completed_proposal_id nd H = Inr b \<and>
             (if \<exists>i. 1 \<le> i \<and> i \<le> H \<and> e i \<noteq> 0 \<and> e i < cur
              then 1 \<le> b \<and> b \<le> H \<and> e b \<noteq> 0 \<and> e b < cur \<and>
                   (\<forall>i. 1 \<le> i \<and> i \<le> H \<and> e i \<noteq> 0 \<and> e i < cur \<longrightarrow> i \<le> b)
              else b = 1)"
proof (cases "0 \<le> H")
  case True
  then have H: "int (nat H) = H" by simp
  have "get_last_completed_proposal_id nd H = completed_loop nd cur [0..H - 1] 1"
    using assms(1) by (simp add: get_last_completed_proposal_id_def range2_def)
  then show ?thesis
    using completed_loop_upto [of "nat H" nd e cur, unfolded H, OF assms(2)] by simp
next
  case False
  then show ?thesis using assms
    by (auto simp: get_last_completed_proposal_id_def range2_def)
qed

theorem last_completed_is_largest_witness:
  "get_last_completed_proposal_id windowing_node 5 = Inr 4"
proof -
  define e :: "int \<Rightarrow> int" where "e = (\<lambda>i. [50, 80, 120, 150, 0] ! nat (i - 1))"
  have h1: "get_block_count windowing_node = Inr 160"
    by (simp add: windowing_node_def table_node_def)
  have h2: "\<forall>i. 1 \<le> i \<and> i \<le> 5 \<longrightarrow> GetVotingDeadline windowing_node i = Inr (e i)"
    by (simp add: windowing_node_def table_node_def e_def)
  have e4: "e 4 = 150" and e5: "e 5 = 0" by (simp_all add: e_def)
  have ex: "\<exists>i. 1 \<le> i \<and> i \<le> 5 \<and> e i \<noteq> 0 \<and> e i < 160"
    by (rule exI [of _ 4]) (simp add: e4)
  from last_completed_is_largest [OF h1 h2] obtain b
    where res: "get_last_completed_proposal_id windowing_node 5 = Inr b"
      and spec: "if \<exists>i. 1 \<le> i \<and> i \<le> 5 \<and> e i \<noteq> 0 \<and> e i < 160
              then 1 \<le> b \<and> b \<le> 5 \<and> e b \<noteq> 0 \<and> e b < 160 \<and>
                   (\<forall>i. 1 \<le> i \<and> i \<le> 5 \<and> e i \<noteq> 0 \<and> e i < 160 \<longrightarrow> i \<le> b)
              else b = 1"
    by blast
  from spec ex have all: "1 \<le> b \<and> b \<le> 5 \<and> e b \<noteq> 0 \<and> e b < 160 \<and>
      (\<forall>i. 1 \<le> i \<and> i \<le> 5 \<and> e i \<noteq> 0 \<and> e i < 160 \<longrightarrow> i \<le> b)"
    by simp
  then have b: "b \<le> 5" "e b \<noteq> 0"
    and top: "\<forall>i. 1 \<le> i \<and> i \<le> 5 \<and> e i \<noteq> 0 \<and> e i < 160 \<longrightarrow> i \<le> b"
    by blast+
  from top have "4 \<le> b" using e4 by simp
  with b e5 have "b = 4" by (cases "b = 5") auto
  with res show ?thesis by simp
qed

subsection \<open>The resolver\<close>

lemma transaction_loop_find:
  "transaction_loop nd txs =
     (case find (\<lambda>v. type (script_pubkey v) \<in> set [''pubkey'', ''pubkeyhash''])
             (concat (map vout txs)) of
        None \<Rightarrow> None
      | Some v \<Rightarrow> (case addresses (script_pubkey v) of
                     [] \<Rightarrow> Some (Inl IndexError)
                   | a # _ \<Rightarrow> Some (Address nd a)))"
proof -
  have vl: "vout_loop nd vs =
     (case find (\<lambda>v. type (script_pubkey v) \<in> set [''pubkey'', ''pubkeyhash'']) vs of
        None \<Rightarrow> None
      | Some v \<Rightarrow> (case addresses (script_pubkey v) of
                     [] \<Rightarrow> Some (Inl IndexError)
                   | a # _ \<Rightarrow> Some (Address nd a)))" for vs
    by (induction vs) (simp_all split: list.splits)
  have fa: "find P (xs @ ys) = (case find P xs of None \<Rightarrow> find P ys | Some x \<Rightarrow> Some x)"
    for P :: "vout \<Rightarrow> bool" and xs ys
    by (induction xs) simp_all
  show ?thesis
    by (induction txs) (simp_all add: vl fa split: option.splits list.splits)
qed

text \<open>
  C10 (as amended). When the node answers the three queries of a height, the address
  recorded for it is the first address \<open>a\<close> of the first output of a recognized type
  (\<^verbatim>\<open>pubkey\<close> or \<^verbatim>\<open>pubkeyhash\<close>) in the block, the transactions searched in
  order and the outputs of each in order: an output of a later transaction is used when
  no earlier transaction has one. The pair is returned when the \<^verbatim>\<open>Address\<close>
  constructor accepts \<open>a\<close>; when it does not, the call raises \<^verbatim>\<open>ValueError\<close>.
\<close>

theorem first_output_of_block:
  assumes "miner_at_height nd h = Inr pk"
    and "get_blockhash nd h = Inr bh"
    and "block nd bh = Inr blk"
    and "find (\<lambda>v. type (script_pubkey v) \<in> set [''pubkey'', ''pubkeyhash''])
           (concat (map vout (transactions blk))) = Some v"
    and "addresses (script_pubkey v) = a # as"
  shows "get_pubkey_and_address_for_height nd h =
           (if valid_address nd a then Inr (Some (pk, a)) else Inl ValueError)"
  using assms
  by (simp add: get_pubkey_and_address_for_height_def transaction_loop_find Address_def)

lemma height_loop_keeps:
  "height_loop nd hs d = Inr d' \<Longrightarrow> map_of d k = Some a \<Longrightarrow> map_of d' k = Some a"
proof (induction hs arbitrary: d)
  case Nil
  then show ?case by simp
next
  case (Cons h hs)
  from Cons.prems(1) obtain pk addr where
    g: "get_pubkey_and_address_for_height nd h = Inr (Some (pk, addr))"
    by (auto split: sum.splits option.splits)
  let ?d1 = "case pk of None \<Rightarrow> d
             | Some p \<Rightarrow> if p \<notin> fst ` set d then AList.update p addr d else d"
  have step: "height_loop nd hs ?d1 = Inr d'" using Cons.prems(1) g by simp
  have "map_of ?d1 k = Some a"
    using Cons.prems(2)
    by (auto simp: update_conv' map_of_eq_None_iff [symmetric] split: option.splits)
  with Cons.IH [OF step] show ?case .
qed

lemma height_loop_distinct:
  "height_loop nd hs d = Inr d' \<Longrightarrow> distinct (map fst d) \<Longrightarrow> distinct (map fst d')"
proof (induction hs arbitrary: d)
  case Nil
  then show ?case by simp
next
  case (Cons h hs)
  from Cons.prems(1) obtain pk addr where
    g: "get_pubkey_and_address_for_height nd h = Inr (Some (pk, addr))"
    by (auto split: sum.splits option.splits)
  let ?d1 = "case pk of None \<Rightarrow> d
             | Some p \<Rightarrow> if p \<notin> fst ` set d then AList.update p addr d else d"
  have step: "height_loop nd hs ?d1 = Inr d'" using Cons.prems(1) g by simp
  have "distinct (map fst ?d1)"
    using Cons.prems(2) by (auto simp: distinct_update split: option.splits)
  with Cons.IH [OF step] show ?case .
qed

lemma height_loop_first:
  "height_loop nd hs d = Inr d' \<Longrightarrow> map_of d k = None \<Longrightarrow> map_of d' k = Some a \<Longrightarrow>
   \<exists>pre h post. hs = pre @ h # post \<and>
      get_pubkey_and_address_for_height nd h = Inr (Some (Some k, a)) \<and>
      (\<forall>h' \<in> set pre. \<forall>a'. get_pubkey_and_address_for_height nd h' \<noteq> Inr (Some (Some k, a')))"
proof (induction hs arbitrary: d)
  case Nil
  then show ?case by simp
next
  case (Cons h hs)
  from Cons.prems(1) obtain pk addr where
    g: "get_pubkey_and_address_for_height nd h = Inr (Some (pk, addr))"
    by (auto split: sum.splits option.splits)
  let ?d1 = "case pk of None \<Rightarrow> d
             | Some p \<Rightarrow> if p \<notin> fst ` set d then AList.update p addr d else d"
  have step: "height_loop nd hs ?d1 = Inr d'" using Cons.prems(1) g by simp
  show ?case
  proof (cases "pk = Some k")
    case True
    have "map_of ?d1 k = Some addr"
      using True Cons.prems(2) by (simp add: update_conv' map_of_eq_None_iff)
    from height_loop_keeps [OF step this] Cons.prems(3) have "addr = a" by simp
    with g True have "get_pubkey_and_address_for_height nd h = Inr (Some (Some k, a))" by simp
    then have "h # hs = [] @ h # hs \<and>
        get_pubkey_and_address_for_height nd h = Inr (Some (Some k, a)) \<and>
        (\<forall>h' \<in> set []. \<forall>a'. get_pubkey_and_address_for_height nd h' \<noteq> Inr (Some (Some k, a')))"
      by simp
    then show ?thesis by blast
  next
    case False
    have "map_of ?d1 k = None"
      using False Cons.prems(2) by (auto simp: update_conv' split: option.splits)
    from Cons.IH [OF step this Cons.prems(3)] obtain pre h1 post where
      hs: "hs = pre @ h1 # post"
      and s: "get_pubkey_and_address_for_height nd h1 = Inr (Some (Some k, a))"
      and n: "\<forall>h' \<in> set pre. \<forall>a'. get_pubkey_and_address_for_height nd h' \<noteq> Inr (Some (Some k, a'))"
      by blast
    have "h # hs = (h # pre) @ h1 # post" using hs by simp
    moreover have "\<forall>h' \<in> set (h # pre). \<forall>a'.
        get_pubkey_and_address_for_height nd h' \<noteq> Inr (Some (Some k, a'))"
      using n g False by auto
    ultimately show ?thesis using s by blast
  qed
qed

lemma height_loop_records:
  "height_loop nd (pre @ h # post) d = Inr d' \<Longrightarrow> map_of d k = None \<Longrightarrow>
   get_pubkey_and_address_for_height nd h = Inr (Some (Some k, a)) \<Longrightarrow>
   (\<forall>h' \<in> set pre. \<forall>a'. get_pubkey_and_address_for_height nd h' \<noteq> Inr (Some (Some k, a'))) \<Longrightarrow>
   map_of d' k = Some a"
proof (induction pre arbitrary: d)
  case Nil
  let ?d1 = "if k \<notin> fst ` set d then AList.update k a d else d"
  have step: "height_loop nd post ?d1 = Inr d'" using Nil.prems(1,3) by simp
  have "map_of ?d1 k = Some a" using Nil.prems(2) by (simp add: update_conv' map_of_eq_None_iff)
  from height_loop_keeps [OF step this] show ?case .
next
  case (Cons h0 pre)
  from Cons.prems(1) obtain pk addr where
    g: "get_pubkey_and_address_for_height nd h0 = Inr (Some (pk, addr))"
    by (auto split: sum.splits option.splits)
  let ?d1 = "case pk of None \<Rightarrow> d
             | Some p \<Rightarrow> if p \<notin> fst ` set d then AList.update p addr d else d"
  have step: "height_loop nd (pre @ h # post) ?d1 = Inr d'" using Cons.prems(1) g by simp
  have "pk \<noteq> Some k" using Cons.prems(4) g by auto
  then have "map_of ?d1 k = None"
    using Cons.prems(2) by (auto simp: update_conv' split: option.splits)
  from Cons.IH [OF step this Cons.prems(3)] Cons.prems(4) show ?case by simp
qed

lemma split_at_first_unique:
  "xs @ h # ys = xs' @ h # ys' \<Longrightarrow> h \<notin> set xs \<Longrightarrow> h \<notin> set xs' \<Longrightarrow> xs = xs'"
proof (induction xs arbitrary: xs')
  case Nil
  then show ?case by (cases xs') auto
next
  case (Cons x xs)
  then show ?case by (cases xs') auto
qed

lemma upto_before:
  assumes "[s..t] = pre @ h # post"
  shows "set pre = {s..<h}" and "s \<le> h" and "h \<le> t"
proof -
  have "h \<in> set [s..t]" unfolding assms by simp
  then have h: "h \<in> {s..t}" by simp
  then show "s \<le> h" "h \<le> t" by simp_all
  from h have "[s..t] = [s..h - 1] @ h # [h + 1..t]" by (simp add: upto_split3)
  with assms have eq: "pre @ h # post = [s..h - 1] @ h # [h + 1..t]" by simp
  have d: "distinct (pre @ h # post)" using assms distinct_upto [of s t] by simp
  have "h \<notin> set pre" using d by simp
  moreover have "h \<notin> set [s..h - 1]" by simp
  ultimately have "pre = [s..h - 1]" using eq
    by (rule split_at_first_unique [rotated])
  then show "set pre = {s..<h}" by auto
qed

lemma height_loop_total:
  "\<forall>h \<in> set hs. \<exists>pk a. get_pubkey_and_address_for_height nd h = Inr (Some (pk, a)) \<Longrightarrow>
   \<exists>d'. height_loop nd hs d = Inr d'"
proof (induction hs arbitrary: d)
  case Nil
  then show ?case by simp
next
  case (Cons h hs)
  from Cons.prems obtain pk a where
    g: "get_pubkey_and_address_for_height nd h = Inr (Some (pk, a))"
    by auto
  from Cons.prems have
    "\<forall>h \<in> set hs. \<exists>pk a. get_pubkey_and_address_for_height nd h = Inr (Some (pk, a))"
    by simp
  from Cons.IH [OF this] show ?case by (simp add: g)
qed

lemma scan_earliest:
  assumes "get_block_count nd = Inr tip"
    and "fedkey_to_address_map nd lookback = Inr d"
  shows "map_of d k = Some a \<longleftrightarrow>
     (\<exists>h. tip - lookback \<le> h \<and> h < tip \<and>
          get_pubkey_and_address_for_height nd h = Inr (Some (Some k, a)) \<and>
          (\<forall>h' a'. tip - lookback \<le> h' \<and> h' < h \<longrightarrow>
             get_pubkey_and_address_for_height nd h' \<noteq> Inr (Some (Some k, a'))))"
proof
  have loop: "height_loop nd [tip - lookback..tip - 1] [] = Inr d"
    using assms by (simp add: fedkey_to_address_map_def range2_def)
  {
    assume "map_of d k = Some a"
    from height_loop_first [OF loop _ this] obtain pre h post where
      hs: "[tip - lookback..tip - 1] = pre @ h # post"
      and s: "get_pubkey_and_address_for_height nd h = Inr (Some (Some k, a))"
      and n: "\<forall>h' \<in> set pre. \<forall>a'. get_pubkey_and_address_for_height nd h' \<noteq> Inr (Some (Some k, a'))"
      by auto
    from upto_before [OF hs] have "set pre = {tip - lookback..<h}" "tip - lookback \<le> h" "h < tip"
      by simp_all
    with s n show "\<exists>h. tip - lookback \<le> h \<and> h < tip \<and>
          get_pubkey_and_address_for_height nd h = Inr (Some (Some k, a)) \<and>
          (\<forall>h' a'. tip - lookback \<le> h' \<and> h' < h \<longrightarrow>
             get_pubkey_and_address_for_height nd h' \<noteq> Inr (Some (Some k, a')))"
      by (intro exI [of _ h]) auto
  }
  {
    assume "\<exists>h. tip - lookback \<le> h \<and> h < tip \<and>
          get_pubkey_and_address_for_height nd h = Inr (Some (Some k, a)) \<and>
          (\<forall>h' a'. tip - lookback \<le> h' \<and> h' < h \<longrightarrow>
             get_pubkey_and_address_for_height nd h' \<noteq> Inr (Some (Some k, a')))"
    then obtain h where r: "tip - lookback \<le> h" "h < tip"
      and s: "get_pubkey_and_address_for_height nd h = Inr (Some (Some k, a))"
      and n: "\<forall>h' a'. tip - lookback \<le> h' \<and> h' < h \<longrightarrow>
             get_pubkey_and_address_for_height nd h' \<noteq> Inr (Some (Some k, a'))"
      by blast
    from r have "[tip - lookback..tip - 1] = [tip - lookback..h - 1] @ h # [h + 1..tip - 1]"
      by (simp add: upto_split3)
    with loop have l: "height_loop nd ([tip - lookback..h - 1] @ h # [h + 1..tip - 1]) [] = Inr d"
      by simp
    have "\<forall>h' \<in> set [tip - lookback..h - 1]. \<forall>a'.
             get_pubkey_and_address_for_height nd h' \<noteq> Inr (Some (Some k, a'))"
      using n by simp
    from height_loop_records [OF l _ s this] show "map_of d k = Some a" by simp
  }
qed

text \<open>
  C1 (as amended). Let the node answer the height query with \<open>tip\<close>. When every height
  \<open>h\<close> of the window \<open>tip - lookback \<le> h < tip\<close> yields a producer and address pair,
  the scan returns a dict. Whenever the scan returns a dict \<open>d\<close>, a key \<open>k\<close> has the
  address \<open>a\<close> in \<open>d\<close> exactly when some height of the window has the producer \<open>k\<close> and
  the address \<open>a\<close> and no lower height of the window has the producer \<open>k\<close>: the entry of
  a key is the address of its earliest sighting. (The witness is the example of the
  specification, heights 100 to 104.)
\<close>

theorem earliest_sighting_wins:
  assumes "get_block_count nd = Inr tip"
  shows "((\<forall>h. tip - lookback \<le> h \<and> h < tip \<longrightarrow>
             (\<exists>pk a. get_pubkey_and_address_for_height nd h = Inr (Some (pk, a)))) \<longrightarrow>
          (\<exists>d. fedkey_to_address_map nd lookback = Inr d)) \<and>
         (\<forall>d k a. fedkey_to_address_map nd lookback = Inr d \<longrightarrow>
            (map_of d k = Some a \<longleftrightarrow>
               (\<exists>h. tip - lookback \<le> h \<and> h < tip \<and>
                    get_pubkey_and_address_for_height nd h = Inr (Some (Some k, a)) \<and>
                    (\<forall>h' a'. tip - lookback \<le> h' \<and> h' < h \<longrightarrow>
                       get_pubkey_and_address_for_height nd h' \<noteq> Inr (Some (Some k, a'))))))"
proof (intro conjI impI allI)
  assume "\<forall>h. tip - lookback \<le> h \<and> h < tip \<longrightarrow>
             (\<exists>pk a. get_pubkey_and_address_for_height nd h = Inr (Some (pk, a)))"
  then have "\<forall>h \<in> set [tip - lookback..tip - 1].
      \<exists>pk a. get_pubkey_and_address_for_height nd h = Inr (Some (pk, a))"
    by simp
  from height_loop_total [OF this, of "[]"] show "\<exists>d. fedkey_to_address_map nd lookback = Inr d"
    using assms by (simp add: fedkey_to_address_map_def range2_def)
next
  fix d k a
  assume "fedkey_to_address_map nd lookback = Inr d"
  from scan_earliest [OF assms this] show "map_of d k = Some a \<longleftrightarrow>
     (\<exists>h. tip - lookback \<le> h \<and> h < tip \<and>
          get_pubkey_and_address_for_height nd h = Inr (Some (Some k, a)) \<and>
          (\<forall>h' a'. tip - lookback \<le> h' \<and> h' < h \<longrightarrow>
             get_pubkey_and_address_for_height nd h' \<noteq> Inr (Some (Some k, a'))))" .
qed

lemmas chain_eval =
  table_node_def range2_def upto.simps get_pubkey_and_address_for_height_def pay_block_def
  Address_def
  fedkey_to_address_map_def get_address_to_fedkey_map_def reverse_mapping_def

theorem earliest_sighting_wins_witness:
  "fedkey_to_address_map first_seen_node 5 =
     Inr [(''PKA'', ''A''), (''PKB'', ''B''), (''PKC'', ''C'')] \<and>
   (\<exists>d. fedkey_to_address_map first_seen_node 5 = Inr d) \<and>
   (\<exists>h. 100 \<le> h \<and> h < 105 \<and>
        get_pubkey_and_address_for_height first_seen_node h = Inr (Some (Some ''PKA'', ''A'')) \<and>
        (\<forall>h' a'. 100 \<le> h' \<and> h' < h \<longrightarrow>
           get_pubkey_and_address_for_height first_seen_node h' \<noteq> Inr (Some (Some ''PKA'', a'))))"
proof -
  have h1: "get_block_count first_seen_node = Inr 105"
    by (simp add: first_seen_node_def table_node_def)
  have pairs: "\<forall>h. 105 - 5 \<le> h \<and> h < 105 \<longrightarrow>
      (\<exists>pk a. get_pubkey_and_address_for_height first_seen_node h = Inr (Some (pk, a)))"
  proof (intro allI impI)
    fix h :: int
    assume "105 - 5 \<le> h \<and> h < 105"
    then have "h = 100 \<or> h = 101 \<or> h = 102 \<or> h = 103 \<or> h = 104" by arith
    then show "\<exists>pk a. get_pubkey_and_address_for_height first_seen_node h = Inr (Some (pk, a))"
      by (elim disjE) (simp_all add: first_seen_node_def first_seen_chain_def chain_eval)
  qed
  have h2: "fedkey_to_address_map first_seen_node 5 =
      Inr [(''PKA'', ''A''), (''PKB'', ''B''), (''PKC'', ''C'')]"
    by (simp add: first_seen_node_def first_seen_chain_def chain_eval)
  have m: "map_of [(''PKA'', ''A''), (''PKB'', ''B''), (''PKC'', ''C'')] ''PKA'' = Some ''A''"
    by simp
  note inst = earliest_sighting_wins [OF h1, of 5]
  from inst pairs have returns: "\<exists>d. fedkey_to_address_map first_seen_node 5 = Inr d"
    by blast
  from inst h2
  have "map_of [(''PKA'', ''A''), (''PKB'', ''B''), (''PKC'', ''C'')] ''PKA'' = Some ''A'' \<longleftrightarrow>
     (\<exists>h. 105 - 5 \<le> h \<and> h < 105 \<and>
          get_pubkey_and_address_for_height first_seen_node h = Inr (Some (Some ''PKA'', ''A'')) \<and>
          (\<forall>h' a'. 105 - 5 \<le> h' \<and> h' < h \<longrightarrow>
             get_pubkey_and_address_for_height first_seen_node h' \<noteq> Inr (Some (Some ''PKA'', a'))))"
    by blast
  with m h2 returns show ?thesis by simp
qed

text \<open>
  Against C1 as stated: a window that reaches below the first block, where the node has
  nothing to answer, and a window with a block that has no output of a recognized type,
  both end the scan with an exception, although a later height of the second window
  sights the key \<open>PKC\<close>: no dict is built.
\<close>

theorem scan_builds_no_map:
  "fedkey_to_address_map shared_address_node 3 = Inl NodeError \<and>
   get_pubkey_and_address_for_height no_output_node 2 = Inr (Some (Some ''PKC'', ''C'')) \<and>
   fedkey_to_address_map no_output_node 3 = Inl TypeError"
  by (simp add: shared_address_node_def no_output_node_def chain_eval)

theorem first_output_of_block_witness:
  "get_pubkey_and_address_for_height second_transaction_node 0 = Inr (Some (Some ''PKA'', ''X''))"
proof -
  let ?v = "\<lparr>script_pubkey = \<lparr>type = ''pubkeyhash'', addresses = [''X'']\<rparr>\<rparr>"
  have h1: "miner_at_height second_transaction_node 0 = Inr (Some ''PKA'')"
    and h2: "get_blockhash second_transaction_node 0 = Inr ''h0''"
    and h3: "block second_transaction_node ''h0'' = Inr second_transaction_block"
    by (simp_all add: second_transaction_node_def table_node_def)
  have h4: "find (\<lambda>v. type (script_pubkey v) \<in> set [''pubkey'', ''pubkeyhash''])
           (concat (map vout (transactions second_transaction_block))) = Some ?v"
    by (simp add: second_transaction_block_def)
  have h5: "addresses (script_pubkey ?v) = ''X'' # []" by simp
  have ok: "valid_address second_transaction_node ''X''"
    by (simp add: second_transaction_node_def table_node_def)
  from first_output_of_block [OF h1 h2 h3 h4 h5] ok show ?thesis by simp
qed

text \<open>
  Against C10 as stated: the first transaction of this block has no output of a recognized
  type, and the height still records the address paid by the second transaction.
\<close>

theorem later_transaction_used:
  "vout_loop second_transaction_node (vout (hd (transactions second_transaction_block))) = None \<and>
   get_pubkey_and_address_for_height second_transaction_node 0 =
     Inr (Some (Some ''PKA'', ''X'')) \<and>
   fedkey_to_address_map second_transaction_node 1 = Inr [(''PKA'', ''X'')]"
  by (simp add: second_transaction_node_def second_transaction_block_def chain_eval)

lemma height_loop_unpacks:
  "height_loop nd hs d = Inr d' \<Longrightarrow> h \<in> set hs \<Longrightarrow>
   get_pubkey_and_address_for_height nd h \<noteq> Inr None"
  by (induction hs arbitrary: d) (auto split: sum.splits option.splits)

text \<open>
  C2. The claim holds for a missing producer key (\<open>missing_producer_skipped\<close> below) and
  fails for a missing output: a height of the window whose block has no output of a
  recognized type makes \<^verbatim>\<open>get_pubkey_and_address_for_height\<close> return \<^verbatim>\<open>None\<close>, and
  \<^verbatim>\<open>get_address_to_fedkey_map\<close> raises instead of going on.
\<close>

theorem missing_output_raises:
  assumes "get_block_count nd = Inr tip"
    and "tip - lookback \<le> h" and "h < tip"
    and "get_pubkey_and_address_for_height nd h = Inr None"
  shows "\<exists>e. get_address_to_fedkey_map nd lookback = Inl e"
proof (cases "height_loop nd [tip - lookback..tip - 1] []")
  case (Inl e)
  then show ?thesis using assms(1)
    by (simp add: get_address_to_fedkey_map_def fedkey_to_address_map_def range2_def)
next
  case (Inr d)
  have "h \<in> set [tip - lookback..tip - 1]" using assms(2,3) by simp
  from height_loop_unpacks [OF Inr this] assms(4) show ?thesis by simp
qed

theorem missing_output_raises_witness:
  "get_pubkey_and_address_for_height no_output_node 1 = Inr None \<and>
   get_address_to_fedkey_map no_output_node 3 = Inl TypeError"
proof -
  have h1: "get_block_count no_output_node = Inr 3"
    by (simp add: no_output_node_def table_node_def)
  have h4: "get_pubkey_and_address_for_height no_output_node 1 = Inr None"
    by (simp add: no_output_node_def chain_eval)
  have "get_address_to_fedkey_map no_output_node 3 = Inl TypeError \<or>
        (\<forall>e. get_address_to_fedkey_map no_output_node 3 \<noteq> Inl e)"
    by (simp add: no_output_node_def chain_eval)
  with missing_output_raises [OF h1 _ _ h4, of 3] h4 show ?thesis by auto
qed

lemma missing_producer_skipped:
  "get_address_to_fedkey_map no_producer_node 3 = Inr [(''A'', ''PKA''), (''C'', ''PKC'')]"
  by (simp add: no_producer_node_def chain_eval)

text \<open>
  Against C6 as stated: two producers paid to one address are both recorded, with the same
  address, and the reversed map keeps only the second.
\<close>

theorem shared_address_not_injective:
  "fedkey_to_address_map shared_address_node 2 = Inr [(''PKA'', ''A''), (''PKB'', ''A'')] \<and>
   get_address_to_fedkey_map shared_address_node 2 = Inr [(''A'', ''PKB'')]"
  by (simp add: shared_address_node_def chain_eval)

lemma reverse_fold_distinct:
  "distinct (map fst acc) \<Longrightarrow>
   distinct (map fst (foldl (\<lambda>acc (k, v). AList.update v k acc) acc d))"
  by (induction d arbitrary: acc) (auto simp: distinct_update)

lemma reverse_fold_keys:
  "fst ` set (foldl (\<lambda>acc (k, v). AList.update v k acc) acc d) = fst ` set acc \<union> snd ` set d"
proof (induction d arbitrary: acc)
  case Nil
  then show ?case by simp
next
  case (Cons p d)
  obtain k a where p: "p = (k, a)" by (cases p)
  show ?case by (simp add: p Cons.IH dom_update Un_assoc)
qed

lemma reverse_fold_map_of:
  "map_of (foldl (\<lambda>acc (k, v). AList.update v k acc) acc d) =
     map_of acc ++ map_of (rev (map (\<lambda>(k, a). (a, k)) d))"
proof (induction d arbitrary: acc)
  case Nil
  then show ?case by simp
next
  case (Cons p d)
  obtain k a where p: "p = (k, a)" by (cases p)
  show ?case
    by (simp add: p Cons.IH update_conv' fun_eq_iff map_add_def split: option.splits)
qed

lemma update_new_key: "k \<notin> fst ` set al \<Longrightarrow> AList.update k v al = al @ [(k, v)]"
  by (induction al) auto

lemma reverse_fold_injective:
  "distinct (map snd d) \<Longrightarrow> snd ` set d \<inter> fst ` set acc = {} \<Longrightarrow>
   foldl (\<lambda>acc (k, v). AList.update v k acc) acc d = acc @ map (\<lambda>(k, a). (a, k)) d"
proof (induction d arbitrary: acc)
  case Nil
  then show ?case by simp
next
  case (Cons p d)
  obtain k a where p: "p = (k, a)" by (cases p)
  have new: "a \<notin> fst ` set acc" using Cons.prems(2) p by auto
  have "snd ` set d \<inter> fst ` set (acc @ [(a, k)]) = {}"
    using Cons.prems p by (auto simp: image_iff)
  with Cons.IH [of "acc @ [(a, k)]"] Cons.prems(1) show ?case
    by (simp add: p update_new_key [OF new])
qed

lemma last_entry:
  "map_of (rev (map (\<lambda>(k, a). (a, k)) d)) a = Some k \<longleftrightarrow>
     (\<exists>pre post. d = pre @ (k, a) # post \<and> a \<notin> snd ` set post)"
proof (induction d rule: rev_induct)
  case Nil
  then show ?case by simp
next
  case (snoc x d)
  obtain k' a' where x: "x = (k', a')" by (cases x)
  show ?case
  proof (cases "a = a'")
    case True
    have "(\<exists>pre post. d @ [(k', a')] = pre @ (k, a) # post \<and> a \<notin> snd ` set post) \<longleftrightarrow> k = k'"
    proof
      assume "\<exists>pre post. d @ [(k', a')] = pre @ (k, a) # post \<and> a \<notin> snd ` set post"
      then obtain pre post where e: "d @ [(k', a')] = pre @ (k, a) # post"
        and n: "a \<notin> snd ` set post" by blast
      show "k = k'"
      proof (cases post rule: rev_cases)
        case Nil
        with e show ?thesis by simp
      next
        case (snoc post' y)
        with e have "y = (k', a')" by simp
        with snoc n True show ?thesis by simp
      qed
    next
      assume "k = k'"
      with True have "d @ [(k', a')] = d @ (k, a) # [] \<and> a \<notin> snd ` set []" by simp
      then show "\<exists>pre post. d @ [(k', a')] = pre @ (k, a) # post \<and> a \<notin> snd ` set post"
        by blast
    qed
    with True x show ?thesis by auto
  next
    case False
    have "(\<exists>pre post. d @ [(k', a')] = pre @ (k, a) # post \<and> a \<notin> snd ` set post) \<longleftrightarrow>
          (\<exists>pre post. d = pre @ (k, a) # post \<and> a \<notin> snd ` set post)"
    proof
      assume "\<exists>pre post. d @ [(k', a')] = pre @ (k, a) # post \<and> a \<notin> snd ` set post"
      then obtain pre post where e: "d @ [(k', a')] = pre @ (k, a) # post"
        and n: "a \<notin> snd ` set post" by blast
      show "\<exists>pre post. d = pre @ (k, a) # post \<and> a \<notin> snd ` set post"
      proof (cases post rule: rev_cases)
        case Nil
        with e False show ?thesis by simp
      next
        case (snoc post' y)
        with e have "d = pre @ (k, a) # post'" by simp
        moreover from snoc n have "a \<notin> snd ` set post'" by simp
        ultimately show ?thesis by blast
      qed
    next
      assume "\<exists>pre post. d = pre @ (k, a) # post \<and> a \<notin> snd ` set post"
      then obtain pre post where "d = pre @ (k, a) # post" and "a \<notin> snd ` set post" by blast
      with False have "d @ [(k', a')] = pre @ (k, a) # (post @ [(k', a')])
          \<and> a \<notin> snd ` set (post @ [(k', a')])" by simp
      then show "\<exists>pre post. d @ [(k', a')] = pre @ (k, a) # post \<and> a \<notin> snd ` set post"
        by blast
    qed
    with False x snoc.IH show ?thesis by simp
  qed
qed

text \<open>
  C6 (as amended). For every scan that returns, the dict from keys to addresses has at
  most one address per key and the reversed dict at most one key per address; the
  addresses of the reversed dict are exactly the recorded ones, and the key that the
  reversed dict gives an address is the key of the last recorded entry with that
  address; when the recorded addresses are pairwise distinct the reversal loses no
  entry.
\<close>

theorem inverse_map_functional:
  assumes "fedkey_to_address_map nd lookback = Inr d"
  shows "get_address_to_fedkey_map nd lookback = Inr (reverse_mapping d)
    \<and> distinct (map fst d)
    \<and> distinct (map fst (reverse_mapping d))
    \<and> fst ` set (reverse_mapping d) = snd ` set d
    \<and> (\<forall>a k. map_of (reverse_mapping d) a = Some k \<longrightarrow> map_of d k = Some a)
    \<and> (\<forall>a k. map_of (reverse_mapping d) a = Some k \<longleftrightarrow>
              (\<exists>pre post. d = pre @ (k, a) # post \<and> a \<notin> snd ` set post))
    \<and> (distinct (map snd d) \<longrightarrow> reverse_mapping d = map (\<lambda>(k, a). (a, k)) d)"
proof -
  from assms have dist: "distinct (map fst d)"
    by (auto simp: fedkey_to_address_map_def split: sum.splits dest: height_loop_distinct)
  have rm: "map_of (reverse_mapping d) = map_of (rev (map (\<lambda>(k, a). (a, k)) d))"
    by (simp add: reverse_mapping_def reverse_fold_map_of)
  have origin: "map_of d k = Some a" if "map_of (reverse_mapping d) a = Some k" for a k
  proof -
    from that have "map_of (rev (map (\<lambda>(k, a). (a, k)) d)) a = Some k"
      by (simp add: rm)
    then have "(a, k) \<in> set (rev (map (\<lambda>(k, a). (a, k)) d))" by (rule map_of_SomeD)
    then have "(k, a) \<in> set d" by auto
    with dist show ?thesis by simp
  qed
  have latest: "map_of (reverse_mapping d) a = Some k \<longleftrightarrow>
      (\<exists>pre post. d = pre @ (k, a) # post \<and> a \<notin> snd ` set post)" for a k
    unfolding rm by (rule last_entry)
  have "get_address_to_fedkey_map nd lookback = Inr (reverse_mapping d)"
    using assms by (simp add: get_address_to_fedkey_map_def)
  moreover have "distinct (map fst (reverse_mapping d))"
    by (simp add: reverse_mapping_def reverse_fold_distinct)
  moreover have "fst ` set (reverse_mapping d) = snd ` set d"
    by (simp add: reverse_mapping_def reverse_fold_keys)
  moreover have "distinct (map snd d) \<longrightarrow> reverse_mapping d = map (\<lambda>(k, a). (a, k)) d"
    by (simp add: reverse_mapping_def reverse_fold_injective)
  ultimately show ?thesis using dist origin latest by blast
qed

theorem inverse_map_functional_witness:
  "get_address_to_fedkey_map first_seen_node 5 =
     Inr [(''A'', ''PKA''), (''B'', ''PKB''), (''C'', ''PKC'')]"
proof -
  have h: "fedkey_to_address_map first_seen_node 5 =
      Inr [(''PKA'', ''A''), (''PKB'', ''B''), (''PKC'', ''C'')]"
    by (simp add: first_seen_node_def first_seen_chain_def chain_eval)
  from inverse_map_functional [OF h] show ?thesis by simp
qed

subsection \<open>Detection of the non-voters\<close>

lemma nonvoting_loop_eq:
  assumes "\<forall>(a, v) \<in> set fmv. B \<in> set (NoVote v) \<and> B - 1 \<in> set (NoVote v) \<and> B - 2 \<in> set (NoVote v)
             \<longrightarrow> a \<in> fst ` set m"
  shows "\<exists>ks. nonvoting_loop m B fmv out = Inr (out @ ks) \<and>
     map Some ks = map (\<lambda>(a, v). map_of m a)
       (filter (\<lambda>(a, v). B \<in> set (NoVote v) \<and> B - 1 \<in> set (NoVote v) \<and> B - 2 \<in> set (NoVote v)) fmv)"
  using assms
proof (induction fmv arbitrary: out)
  case Nil
  then show ?case by simp
next
  case (Cons p fmv)
  obtain a v where p: "p = (a, v)" by (cases p)
  from Cons.prems have rest: "\<forall>(a, v) \<in> set fmv.
      B \<in> set (NoVote v) \<and> B - 1 \<in> set (NoVote v) \<and> B - 2 \<in> set (NoVote v) \<longrightarrow> a \<in> fst ` set m"
    by simp
  show ?case
  proof (cases "B \<in> set (NoVote v) \<and> B - 1 \<in> set (NoVote v) \<and> B - 2 \<in> set (NoVote v)")
    case True
    with Cons.prems p have "a \<in> fst ` set m" by simp
    then obtain k where k: "map_of m a = Some k"
      by (cases "map_of m a") (auto simp: map_of_eq_None_iff)
    from Cons.IH [OF rest, of "out @ [k]"] obtain ks where
      "nonvoting_loop m B fmv (out @ [k]) = Inr ((out @ [k]) @ ks)"
      and "map Some ks = map (\<lambda>(a, v). map_of m a)
       (filter (\<lambda>(a, v). B \<in> set (NoVote v) \<and> B - 1 \<in> set (NoVote v) \<and> B - 2 \<in> set (NoVote v)) fmv)"
      by blast
    then show ?thesis using True k p by (intro exI [of _ "k # ks"]) simp
  next
    case False
    from Cons.IH [OF rest, of out] show ?thesis using False p by auto
  qed
qed

text \<open>
  C4. For every tabulation \<open>fmv\<close>, every \<open>B\<close> and every address map \<open>m\<close> that has the
  flagged addresses, \<^verbatim>\<open>get_nonvoting_fedkeys_in_last_3_proposals\<close> returns, in the order
  of the tabulation, the key that \<open>m\<close> gives each address whose \<^verbatim>\<open>NoVote\<close> list contains
  all of \<open>B\<close>, \<open>B - 1\<close> and \<open>B - 2\<close>, and nothing for any other address. (The witness is
  the example of the specification: for \<open>B = 5\<close> the address with \<^verbatim>\<open>NoVote\<close> \<open>[5, 4, 3]\<close>
  is reported and the one with \<^verbatim>\<open>NoVote\<close> \<open>[5, 4]\<close> and \<^verbatim>\<open>Yes\<close> \<open>[3]\<close> is not.)
\<close>

theorem flagged_keys_reported:
  assumes "\<forall>(a, v) \<in> set fmv. B \<in> set (NoVote v) \<and> B - 1 \<in> set (NoVote v) \<and> B - 2 \<in> set (NoVote v)
             \<longrightarrow> a \<in> fst ` set m"
  shows "\<exists>ks. get_nonvoting_fedkeys_in_last_3_proposals m fmv B = Inr ks \<and>
     map Some ks = map (\<lambda>(a, v). map_of m a)
       (filter (\<lambda>(a, v). {B, B - 1, B - 2} \<subseteq> set (NoVote v)) fmv)"
  using nonvoting_loop_eq [OF assms, of "[]"]
  by (simp add: get_nonvoting_fedkeys_in_last_3_proposals_def)

theorem flagged_keys_reported_witness:
  "get_nonvoting_fedkeys_in_last_3_proposals [(''X'', ''KX''), (''Y'', ''KY'')]
     [(''X'', \<lparr>NoVote = [5, 4, 3], No = [], Yes = []\<rparr>),
      (''Y'', \<lparr>NoVote = [5, 4], No = [], Yes = [3]\<rparr>)] 5 = Inr [''KX'']"
proof -
  let ?m = "[(''X'', ''KX''), (''Y'', ''KY'')]"
  let ?fmv = "[(''X'', \<lparr>NoVote = [5, 4, 3], No = [], Yes = []\<rparr>),
      (''Y'', \<lparr>NoVote = [5 :: int, 4], No = [], Yes = [3]\<rparr>)]"
  have h: "\<forall>(a, v) \<in> set ?fmv.
      5 \<in> set (NoVote v) \<and> 5 - 1 \<in> set (NoVote v) \<and> 5 - 2 \<in> set (NoVote v) \<longrightarrow> a \<in> fst ` set ?m"
    by simp
  from flagged_keys_reported [OF h] obtain ks where
    r: "get_nonvoting_fedkeys_in_last_3_proposals ?m ?fmv 5 = Inr ks"
    and ks: "map Some ks = map (\<lambda>(a, v). map_of ?m a)
       (filter (\<lambda>(a, v). {5, 5 - 1, 5 - 2} \<subseteq> set (NoVote v)) ?fmv)"
    by blast
  from ks have "map Some ks = [Some ''KX'']" by simp
  then have "ks = [''KX'']" by (auto simp: map_eq_Cons_conv)
  with r show ?thesis by simp
qed

subsection \<open>Eligibility\<close>

lemma set_update_subset: "set (AList.update k v al) \<subseteq> insert (k, v) (set al)"
  by (induction al) auto

lemma eligible_loop_entries:
  "eligible_loop fed m fmv acc = Inr out \<Longrightarrow>
   set out \<subseteq> set acc \<union> {(a, v). (a, v) \<in> set fmv \<and> (\<exists>k. map_of m a = Some k \<and> k \<in> set fed)}"
proof (induction fmv arbitrary: acc)
  case Nil
  then show ?case by simp
next
  case (Cons p fmv)
  obtain a v where p: "p = (a, v)" by (cases p)
  from Cons.prems p obtain k where k: "map_of m a = Some k"
    by (auto split: option.splits)
  let ?acc = "if k \<in> set fed then AList.update a v acc else acc"
  have step: "eligible_loop fed m fmv ?acc = Inr out" using Cons.prems p k by simp
  have "set ?acc \<subseteq> set acc \<union> {(a, v). (a, v) \<in> set (p # fmv) \<and>
      (\<exists>k. map_of m a = Some k \<and> k \<in> set fed)}"
    using set_update_subset [of a v acc] k p by auto
  with Cons.IH [OF step] show ?case by auto
qed

lemma eligible_loop_total:
  "fst ` set fmv \<subseteq> fst ` set m \<Longrightarrow> \<exists>out. eligible_loop fed m fmv acc = Inr out"
proof (induction fmv arbitrary: acc)
  case Nil
  then show ?case by simp
next
  case (Cons p fmv)
  obtain a v where p: "p = (a, v)" by (cases p)
  from Cons.prems p have "a \<in> fst ` set m" by simp
  then obtain k where k: "map_of m a = Some k"
    by (cases "map_of m a") (auto simp: map_of_eq_None_iff)
  from Cons.prems have "fst ` set fmv \<subseteq> fst ` set m" by simp
  from Cons.IH [OF this] show ?case using p k by simp
qed

lemma nonvoting_loop_keys:
  "nonvoting_loop m B fmv out = Inr ks \<Longrightarrow>
   set ks \<subseteq> set out \<union> {k. \<exists>a \<in> fst ` set fmv. map_of m a = Some k}"
proof (induction fmv arbitrary: out)
  case Nil
  then show ?case by simp
next
  case (Cons p fmv)
  obtain a v where p: "p = (a, v)" by (cases p)
  show ?case
  proof (cases "B \<in> set (NoVote v) \<and> B - 1 \<in> set (NoVote v) \<and> B - 2 \<in> set (NoVote v)")
    case True
    with Cons.prems p obtain k where k: "map_of m a = Some k"
      and step: "nonvoting_loop m B fmv (out @ [k]) = Inr ks"
      by (auto split: option.splits)
    from Cons.IH [OF step] k p show ?thesis by auto
  next
    case False
    with Cons.prems p have "nonvoting_loop m B fmv out = Inr ks" by auto
    from Cons.IH [OF this] show ?thesis by auto
  qed
qed

lemma filtered_key_absent:
  assumes "GetVotingDeadline nd (B - 2) = Inr h"
    and "federation_at_height nd h = Inr fed"
    and "filter_eligible_fedkeys nd fmv m B = Inr fmv'"
    and "map_of m a = Some k"
    and "k \<notin> set fed"
  shows "a \<notin> fst ` set fmv' \<and>
         (\<forall>ks. get_nonvoting_fedkeys_in_last_3_proposals m fmv' B = Inr ks \<longrightarrow> k \<notin> set ks)"
proof -
  from assms(1-3) have loop: "eligible_loop fed m fmv [] = Inr fmv'"
    by (simp add: filter_eligible_fedkeys_def get_proposal_ending_height_def)
  from eligible_loop_entries [OF loop]
  have kept: "\<forall>(a', v) \<in> set fmv'. \<exists>k'. map_of m a' = Some k' \<and> k' \<in> set fed"
    by auto
  have absent: "a \<notin> fst ` set fmv'"
  proof
    assume "a \<in> fst ` set fmv'"
    then obtain v where "(a, v) \<in> set fmv'" by auto
    with kept assms(4,5) show False by auto
  qed
  have "k \<notin> set ks" if "get_nonvoting_fedkeys_in_last_3_proposals m fmv' B = Inr ks" for ks
  proof
    assume "k \<in> set ks"
    from that have "nonvoting_loop m B fmv' [] = Inr ks"
      by (simp add: get_nonvoting_fedkeys_in_last_3_proposals_def)
    from nonvoting_loop_keys [OF this] \<open>k \<in> set ks\<close>
    have "k \<in> {k. \<exists>a \<in> fst ` set fmv'. map_of m a = Some k}" by auto
    then obtain a' where "a' \<in> fst ` set fmv'" and "map_of m a' = Some k"
      by blast
    with kept assms(5) show False by auto
  qed
  with absent show ?thesis by blast
qed


subsection \<open>Tabulation\<close>

lemma append_vote_keys:
  assumes "append_vote a f fmv = Inr fmv'"
  shows "map fst fmv' = map fst fmv"
proof -
  from assms obtain v where v: "map_of fmv a = Some v" and eq: "fmv' = AList.update a (f v) fmv"
    by (auto simp: append_vote_def split: option.splits)
  from v have "(a, v) \<in> set fmv" by (rule map_of_SomeD)
  then have "a \<in> set (map fst fmv)" by force
  with eq show ?thesis by (simp add: update_keys)
qed

lemma append_vote_entries:
  "append_vote a f fmv = Inr fmv' \<Longrightarrow>
   \<exists>v. (a, v) \<in> set fmv \<and> set fmv' \<subseteq> insert (a, f v) (set fmv)"
  using set_update_subset [of a _ fmv]
  by (auto simp: append_vote_def split: option.splits dest: map_of_SomeD)

lemma proposal_loop_step:
  assumes "proposal_loop nd a (i # ids) fmv log = Inr (fmv', log')"
  obtains vote fmv1 where "GetVote nd (i + 1) a = Inr vote"
    and "fmv1 = fmv
        \<or> append_vote a (\<lambda>v. v\<lparr>NoVote := NoVote v @ [i + 1]\<rparr>) fmv = Inr fmv1
        \<or> append_vote a (\<lambda>v. v\<lparr>No := No v @ [i + 1]\<rparr>) fmv = Inr fmv1
        \<or> append_vote a (\<lambda>v. v\<lparr>Yes := Yes v @ [i + 1]\<rparr>) fmv = Inr fmv1"
    and "proposal_loop nd a ids fmv1 (log @ [(i + 1, a)]) = Inr (fmv', log')"
proof -
  from assms obtain vote where v: "GetVote nd (i + 1) a = Inr vote"
    by (cases "GetVote nd (i + 1) a") (simp_all add: Let_def get_address_proposal_vote_def)
  define r where "r =
    (if vote = Some 0 then append_vote a (\<lambda>v. v\<lparr>NoVote := NoVote v @ [i + 1]\<rparr>) fmv
     else if vote = Some 1 then append_vote a (\<lambda>v. v\<lparr>No := No v @ [i + 1]\<rparr>) fmv
     else if vote = Some 2 then append_vote a (\<lambda>v. v\<lparr>Yes := Yes v @ [i + 1]\<rparr>) fmv
     else Inr fmv)"
  from assms v have "(case r of Inl e \<Rightarrow> Inl e
      | Inr fmv1 \<Rightarrow> proposal_loop nd a ids fmv1 (log @ [(i + 1, a)])) = Inr (fmv', log')"
    by (simp add: Let_def get_address_proposal_vote_def r_def)
  then obtain fmv1 where r: "r = Inr fmv1"
    and rest: "proposal_loop nd a ids fmv1 (log @ [(i + 1, a)]) = Inr (fmv', log')"
    by (cases r) simp_all
  from r have d: "fmv1 = fmv
        \<or> append_vote a (\<lambda>v. v\<lparr>NoVote := NoVote v @ [i + 1]\<rparr>) fmv = Inr fmv1
        \<or> append_vote a (\<lambda>v. v\<lparr>No := No v @ [i + 1]\<rparr>) fmv = Inr fmv1
        \<or> append_vote a (\<lambda>v. v\<lparr>Yes := Yes v @ [i + 1]\<rparr>) fmv = Inr fmv1"
    unfolding r_def by (auto split: if_splits)
  show thesis by (rule that [OF v d rest])
qed

lemma append_vote_bounded:
  assumes "append_vote a f fmv = Inr fmv1"
    and "\<forall>(k, v) \<in> set fmv. set (NoVote v) \<subseteq> S"
    and "\<And>v. set (NoVote v) \<subseteq> S \<Longrightarrow> set (NoVote (f v)) \<subseteq> S"
  shows "\<forall>(k, v) \<in> set fmv1. set (NoVote v) \<subseteq> S"
proof -
  from append_vote_entries [OF assms(1)] obtain v where
    v: "(a, v) \<in> set fmv" and sub: "set fmv1 \<subseteq> insert (a, f v) (set fmv)"
    by blast
  from v assms(2) have "set (NoVote v) \<subseteq> S" by auto
  then have fv: "set (NoVote (f v)) \<subseteq> S" by (rule assms(3))
  have "set (NoVote w) \<subseteq> S" if "(k, w) \<in> set fmv1" for k w
  proof (cases "(k, w) = (a, f v)")
    case True
    with fv show ?thesis by simp
  next
    case False
    with that sub have "(k, w) \<in> set fmv" by auto
    with assms(2) show ?thesis by auto
  qed
  then show ?thesis by auto
qed

lemma proposal_loop_log:
  "proposal_loop nd a ids fmv log = Inr (fmv', log') \<Longrightarrow>
   log' = log @ map (\<lambda>i. (i + 1, a)) ids"
proof (induction ids arbitrary: fmv log)
  case Nil
  then show ?case by simp
next
  case (Cons i ids)
  from Cons.prems obtain fmv1 where
    "proposal_loop nd a ids fmv1 (log @ [(i + 1, a)]) = Inr (fmv', log')"
    by (rule proposal_loop_step)
  from Cons.IH [OF this] show ?case by simp
qed

lemma proposal_loop_keys:
  "proposal_loop nd a ids fmv log = Inr (fmv', log') \<Longrightarrow> map fst fmv' = map fst fmv"
proof (induction ids arbitrary: fmv log)
  case Nil
  then show ?case by simp
next
  case (Cons i ids)
  from Cons.prems obtain fmv1 where
    one: "fmv1 = fmv
        \<or> append_vote a (\<lambda>v. v\<lparr>NoVote := NoVote v @ [i + 1]\<rparr>) fmv = Inr fmv1
        \<or> append_vote a (\<lambda>v. v\<lparr>No := No v @ [i + 1]\<rparr>) fmv = Inr fmv1
        \<or> append_vote a (\<lambda>v. v\<lparr>Yes := Yes v @ [i + 1]\<rparr>) fmv = Inr fmv1"
    and rest: "proposal_loop nd a ids fmv1 (log @ [(i + 1, a)]) = Inr (fmv', log')"
    by (rule proposal_loop_step)
  from one have "map fst fmv1 = map fst fmv" by (auto dest: append_vote_keys)
  with Cons.IH [OF rest] show ?case by simp
qed

lemma proposal_loop_bounded:
  "proposal_loop nd a ids fmv log = Inr (fmv', log') \<Longrightarrow>
   \<forall>(k, v) \<in> set fmv. set (NoVote v) \<subseteq> S \<Longrightarrow>
   \<forall>i \<in> set ids. i + 1 \<in> S \<Longrightarrow>
   \<forall>(k, v) \<in> set fmv'. set (NoVote v) \<subseteq> S"
proof (induction ids arbitrary: fmv log)
  case Nil
  then show ?case by simp
next
  case (Cons i ids)
  from Cons.prems(1) obtain fmv1 where
    one: "fmv1 = fmv
        \<or> append_vote a (\<lambda>v. v\<lparr>NoVote := NoVote v @ [i + 1]\<rparr>) fmv = Inr fmv1
        \<or> append_vote a (\<lambda>v. v\<lparr>No := No v @ [i + 1]\<rparr>) fmv = Inr fmv1
        \<or> append_vote a (\<lambda>v. v\<lparr>Yes := Yes v @ [i + 1]\<rparr>) fmv = Inr fmv1"
    and rest: "proposal_loop nd a ids fmv1 (log @ [(i + 1, a)]) = Inr (fmv', log')"
    by (rule proposal_loop_step)
  have i: "i + 1 \<in> S" using Cons.prems(3) by simp
  have "\<forall>(k, v) \<in> set fmv1. set (NoVote v) \<subseteq> S"
    using one
  proof (elim disjE)
    assume "fmv1 = fmv"
    with Cons.prems(2) show ?thesis by simp
  next
    assume "append_vote a (\<lambda>v. v\<lparr>NoVote := NoVote v @ [i + 1]\<rparr>) fmv = Inr fmv1"
    then show ?thesis using Cons.prems(2) by (rule append_vote_bounded) (use i in simp)
  next
    assume "append_vote a (\<lambda>v. v\<lparr>No := No v @ [i + 1]\<rparr>) fmv = Inr fmv1"
    then show ?thesis using Cons.prems(2) by (rule append_vote_bounded) simp
  next
    assume "append_vote a (\<lambda>v. v\<lparr>Yes := Yes v @ [i + 1]\<rparr>) fmv = Inr fmv1"
    then show ?thesis using Cons.prems(2) by (rule append_vote_bounded) simp
  qed
  from Cons.IH [OF rest this] Cons.prems(3) show ?case by simp
qed

lemma address_loop_log:
  "address_loop nd B addrs fmv log = Inr (fmv', log') \<Longrightarrow>
   log' = log @ concat (map (\<lambda>a. map (\<lambda>i. (i + 1, a)) (range2 0 B)) addrs)"
proof (induction addrs arbitrary: fmv log)
  case Nil
  then show ?case by simp
next
  case (Cons a addrs)
  from Cons.prems obtain fmv1 log1 where
    one: "proposal_loop nd a (range2 0 B)
            (AList.update a \<lparr>NoVote = [], No = [], Yes = []\<rparr> fmv) log = Inr (fmv1, log1)"
    and rest: "address_loop nd B addrs fmv1 log1 = Inr (fmv', log')"
    by (auto split: sum.splits)
  from proposal_loop_log [OF one] Cons.IH [OF rest] show ?case by simp
qed

lemma address_loop_keys:
  "address_loop nd B addrs fmv log = Inr (fmv', log') \<Longrightarrow>
   fst ` set fmv' = fst ` set fmv \<union> set addrs"
proof (induction addrs arbitrary: fmv log)
  case Nil
  then show ?case by simp
next
  case (Cons a addrs)
  from Cons.prems obtain fmv1 log1 where
    one: "proposal_loop nd a (range2 0 B)
            (AList.update a \<lparr>NoVote = [], No = [], Yes = []\<rparr> fmv) log = Inr (fmv1, log1)"
    and rest: "address_loop nd B addrs fmv1 log1 = Inr (fmv', log')"
    by (auto split: sum.splits)
  from proposal_loop_keys [OF one]
  have "set (map fst fmv1) = set (map fst (AList.update a \<lparr>NoVote = [], No = [], Yes = []\<rparr> fmv))"
    by simp
  then have "fst ` set fmv1 = insert a (fst ` set fmv)"
    by (simp add: dom_update)
  with Cons.IH [OF rest] show ?case by auto
qed

lemma address_loop_bounded:
  "address_loop nd B addrs fmv log = Inr (fmv', log') \<Longrightarrow>
   \<forall>(k, v) \<in> set fmv. set (NoVote v) \<subseteq> {1..B} \<Longrightarrow>
   \<forall>(k, v) \<in> set fmv'. set (NoVote v) \<subseteq> {1..B}"
proof (induction addrs arbitrary: fmv log)
  case Nil
  then show ?case by simp
next
  case (Cons a addrs)
  from Cons.prems(1) obtain fmv1 log1 where
    one: "proposal_loop nd a (range2 0 B)
            (AList.update a \<lparr>NoVote = [], No = [], Yes = []\<rparr> fmv) log = Inr (fmv1, log1)"
    and rest: "address_loop nd B addrs fmv1 log1 = Inr (fmv', log')"
    by (auto split: sum.splits)
  have start: "\<forall>(k, v) \<in> set (AList.update a \<lparr>NoVote = [], No = [], Yes = []\<rparr> fmv).
      set (NoVote v) \<subseteq> {1..B}"
    using Cons.prems(2) set_update_subset [of a "\<lparr>NoVote = [], No = [], Yes = []\<rparr>" fmv]
    by fastforce
  have ids: "\<forall>i \<in> set (range2 0 B). i + 1 \<in> {1..B}" by (auto simp: range2_def)
  from proposal_loop_bounded [OF one start ids] Cons.IH [OF rest] show ?case by simp
qed

lemma whitelist_loop_subset:
  "whitelist_loop nd addrs acc = Inr wl \<Longrightarrow> set wl \<subseteq> set acc \<union> set addrs"
proof (induction addrs arbitrary: acc)
  case Nil
  then show ?case by simp
next
  case (Cons a addrs)
  from Cons.prems have ok: "Address nd a = Inr a"
    by (cases "valid_address nd a") (simp_all add: Address_def)
  with Cons.prems obtain w where w: "check_if_address_is_dao_whitelisted nd a = Inr w"
    by (cases "check_if_address_is_dao_whitelisted nd a") simp_all
  with Cons.prems ok have
    "whitelist_loop nd addrs (if w then acc @ [a] else acc) = Inr wl"
    by simp
  from Cons.IH [OF this] show ?case by (auto split: if_splits)
qed

lemma completed_loop_positive:
  "completed_loop nd cur ids best = Inr b \<Longrightarrow> 1 \<le> best \<Longrightarrow> \<forall>i \<in> set ids. 0 \<le> i \<Longrightarrow> 1 \<le> b"
proof (induction ids arbitrary: best)
  case Nil
  then show ?case by simp
next
  case (Cons i ids)
  from Cons.prems(1) obtain best1 where
    b: "best1 = i + 1 \<or> best1 = best"
    and rest: "completed_loop nd cur ids best1 = Inr b"
    by (auto simp: Let_def split: sum.splits if_splits)
  from b Cons.prems(2,3) have "1 \<le> best1" by auto
  from Cons.IH [OF rest this] Cons.prems(3) show ?case by simp
qed

lemma last_completed_positive:
  "get_last_completed_proposal_id nd H = Inr B \<Longrightarrow> 1 \<le> B"
  by (auto simp: get_last_completed_proposal_id_def range2_def split: sum.splits
      dest: completed_loop_positive)

lemma ids_from_one: "0 \<le> B \<Longrightarrow> map (\<lambda>i. i + 1) [0..B - 1] = [1..B]"
  by (rule nth_equalityI) auto


lemma concat_rows_length:
  "length (concat (map (\<lambda>a. map (g a) xs) wl)) = length wl * length xs"
  by (induction wl) simp_all

lemma nonvoting_loop_none:
  "\<forall>(a, v) \<in> set fmv. B - 2 \<notin> set (NoVote v) \<Longrightarrow> nonvoting_loop m B fmv out = Inr out"
  by (induction fmv arbitrary: out) auto

lemma run_stages:
  assumes "run_vote_monitor nd = Inr (report, log)"
  obtains pubkeys m H B wl fmv fmv' ks where
    "get_current_federation_pubkeys nd = Inr pubkeys"
    and "get_address_to_fedkey_map nd (int (length pubkeys) * 3) = Inr m"
    and "get_last_proposal_id nd = Inr H"
    and "get_last_completed_proposal_id nd H = Inr B"
    and "find_whitelisted_federation_addresses nd (map fst m) = Inr wl"
    and "tabulate_fed_member_votes nd wl B [] = Inr (fmv, log)"
    and "filter_eligible_fedkeys nd fmv m B = Inr fmv'"
    and "get_nonvoting_fedkeys_in_last_3_proposals m fmv' B = Inr ks"
    and "report = markdown_format_output ks"
  using assms
  by (auto simp: run_vote_monitor_def Let_def split: sum.splits prod.splits)

lemmas run_eval =
  run_vote_monitor_def get_current_federation_pubkeys_def get_last_proposal_id_def
  get_last_completed_proposal_id_def get_proposal_ending_height_def
  find_whitelisted_federation_addresses_def check_if_address_is_dao_whitelisted_def
  tabulate_fed_member_votes_def get_address_proposal_vote_def append_vote_def
  filter_eligible_fedkeys_def get_nonvoting_fedkeys_in_last_3_proposals_def
  markdown_format_output_def rejecting_negative_ids_def Let_def
  three_proposal_node_def two_proposal_node_def one_proposal_node_def
  two_member_chain_def unvoted_all_def chain_eval

text \<open>
  C7 (as amended). An address of the whitelist whose key in the address map is not in
  the federation \<open>fed\<close>, reported at the ending height \<open>h\<close> of proposal \<open>B - 2\<close>, is
  tabulated like every other: it has a record in the tabulation and the proposals
  \<open>1..B\<close> are queried for it. \<^verbatim>\<open>filter_eligible_fedkeys\<close> then drops it: it is in no
  record that the filter returns, whatever its votes, and its key is in no list that
  the detection returns for the filtered records.
\<close>

theorem absent_key_never_flagged:
  assumes "tabulate_fed_member_votes nd wl B log0 = Inr (fmv, log)"
    and "a \<in> set wl"
    and "GetVotingDeadline nd (B - 2) = Inr h"
    and "federation_at_height nd h = Inr fed"
    and "filter_eligible_fedkeys nd fmv m B = Inr fmv'"
    and "map_of m a = Some k"
    and "k \<notin> set fed"
  shows "a \<in> fst ` set fmv \<and>
         (\<forall>i. 1 \<le> i \<and> i \<le> B \<longrightarrow> (i, a) \<in> set log) \<and>
         a \<notin> fst ` set fmv' \<and>
         (\<forall>ks. get_nonvoting_fedkeys_in_last_3_proposals m fmv' B = Inr ks \<longrightarrow> k \<notin> set ks)"
proof -
  from assms(1) have loop: "address_loop nd B wl [] log0 = Inr (fmv, log)"
    by (simp add: tabulate_fed_member_votes_def)
  from address_loop_keys [OF loop] assms(2) have tab: "a \<in> fst ` set fmv" by simp
  have queried: "(i, a) \<in> set log" if "1 \<le> i \<and> i \<le> B" for i
  proof -
    from that have "i - 1 \<in> set (range2 0 B)" by (simp add: range2_def)
    then have "(\<lambda>i. (i + 1, a)) (i - 1) \<in> (\<lambda>i. (i + 1, a)) ` set (range2 0 B)"
      by (rule imageI)
    then have "(i, a) \<in> set (map (\<lambda>i. (i + 1, a)) (range2 0 B))"
      by simp
    then have "(i, a) \<in> set (concat (map (\<lambda>a. map (\<lambda>i. (i + 1, a)) (range2 0 B)) wl))"
      using assms(2) by auto
    with address_loop_log [OF loop] show ?thesis by simp
  qed
  from filtered_key_absent [OF assms(3-7)] tab queried show ?thesis by blast
qed

theorem absent_key_never_flagged_witness:
  "filter_eligible_fedkeys three_proposal_node
     [(''A'', \<lparr>NoVote = [1, 2, 3], No = [], Yes = []\<rparr>),
      (''B'', \<lparr>NoVote = [1, 2, 3], No = [], Yes = []\<rparr>)]
     [(''A'', ''PKA''), (''B'', ''PKB'')] 3 =
     Inr [(''A'', \<lparr>NoVote = [1, 2, 3], No = [], Yes = []\<rparr>)] \<and>
   ''B'' \<in> fst ` set [(''A'', \<lparr>NoVote = [1 :: int, 2, 3], No = [], Yes = []\<rparr>),
                      (''B'', \<lparr>NoVote = [1, 2, 3], No = [], Yes = []\<rparr>)] \<and>
   ''B'' \<notin> fst ` set [(''A'', \<lparr>NoVote = [1 :: int, 2, 3], No = [], Yes = []\<rparr>)]"
proof -
  let ?r = "\<lparr>NoVote = [1 :: int, 2, 3], No = [], Yes = []\<rparr>"
  let ?m = "[(''A'', ''PKA''), (''B'', ''PKB'')]"
  have t: "tabulate_fed_member_votes three_proposal_node [''A'', ''B''] 3 [] =
     Inr ([(''A'', ?r), (''B'', ?r)],
          [(1, ''A''), (2, ''A''), (3, ''A''), (1, ''B''), (2, ''B''), (3, ''B'')])"
    by (simp add: run_eval)
  have w: "''B'' \<in> set [''A'', ''B'']" by simp
  have h1: "GetVotingDeadline three_proposal_node (3 - 2) = Inr 1"
    by (simp add: three_proposal_node_def table_node_def)
  have h2: "federation_at_height three_proposal_node 1 = Inr [''PKA'']"
    by (simp add: three_proposal_node_def table_node_def)
  have h3: "filter_eligible_fedkeys three_proposal_node [(''A'', ?r), (''B'', ?r)] ?m 3 =
      Inr [(''A'', ?r)]"
    by (simp add: run_eval)
  have h4: "map_of ?m ''B'' = Some ''PKB''" by simp
  have h5: "''PKB'' \<notin> set [''PKA'']" by simp
  from absent_key_never_flagged [OF t w h1 h2 h3 h4 h5] h3 show ?thesis by simp
qed

text \<open>
  Against C7 as stated: the key \<open>PKB\<close> of the whitelisted address \<open>B\<close> is not in the
  federation reported at the ending height of proposal \<open>3 - 2\<close>, and the tabulation
  still queries the three proposals for \<open>B\<close> and holds its record.
\<close>

theorem absent_key_is_tabulated:
  "find_whitelisted_federation_addresses three_proposal_node [''A'', ''B''] =
     Inr [''A'', ''B''] \<and>
   GetVotingDeadline three_proposal_node (3 - 2) = Inr 1 \<and>
   federation_at_height three_proposal_node 1 = Inr [''PKA''] \<and>
   tabulate_fed_member_votes three_proposal_node [''A'', ''B''] 3 [] =
     Inr ([(''A'', \<lparr>NoVote = [1, 2, 3], No = [], Yes = []\<rparr>),
           (''B'', \<lparr>NoVote = [1, 2, 3], No = [], Yes = []\<rparr>)],
          [(1, ''A''), (2, ''A''), (3, ''A''), (1, ''B''), (2, ''B''), (3, ''B'')])"
  by (simp add: run_eval)

text \<open>
  C5 (as amended). In every run that returns, the tabulation has run over every
  whitelisted address, before the eligibility filter is applied to its result: the log
  of the \<^verbatim>\<open>GetVote\<close> queries holds, for each whitelisted address in turn, the proposals
  \<open>1..B\<close>, so the number of queries is the number of whitelisted addresses times \<open>B\<close>.
\<close>

theorem getvote_queries_per_whitelisted:
  assumes "run_vote_monitor nd = Inr (report, log)"
  shows "\<exists>pubkeys m H B wl.
      get_current_federation_pubkeys nd = Inr pubkeys \<and>
      get_address_to_fedkey_map nd (int (length pubkeys) * 3) = Inr m \<and>
      get_last_proposal_id nd = Inr H \<and>
      get_last_completed_proposal_id nd H = Inr B \<and>
      find_whitelisted_federation_addresses nd (map fst m) = Inr wl \<and>
      log = concat (map (\<lambda>a. map (\<lambda>i. (i, a)) [1..B]) wl) \<and>
      int (length log) = int (length wl) * B"
proof -
  from assms obtain pubkeys m H B wl fmv where
    s1: "get_current_federation_pubkeys nd = Inr pubkeys"
    and s2: "get_address_to_fedkey_map nd (int (length pubkeys) * 3) = Inr m"
    and s3: "get_last_proposal_id nd = Inr H"
    and s4: "get_last_completed_proposal_id nd H = Inr B"
    and s5: "find_whitelisted_federation_addresses nd (map fst m) = Inr wl"
    and s6: "tabulate_fed_member_votes nd wl B [] = Inr (fmv, log)"
    by (rule run_stages)
  from last_completed_positive [OF s4] have B: "0 \<le> B" by simp
  from s6 have "log = concat (map (\<lambda>a. map (\<lambda>i. (i + 1, a)) (range2 0 B)) wl)"
    by (auto simp: tabulate_fed_member_votes_def dest: address_loop_log)
  moreover have "map (\<lambda>i. (i + 1, a)) (range2 0 B) = map (\<lambda>i. (i, a)) [1..B]" for a :: string
    using ids_from_one [OF B, symmetric] by (simp add: range2_def comp_def)
  ultimately have log: "log = concat (map (\<lambda>a. map (\<lambda>i. (i, a)) [1..B]) wl)" by simp
  have "length log = length wl * nat B"
    unfolding log by (simp add: concat_rows_length)
  with B have "int (length log) = int (length wl) * B" by simp
  with s1 s2 s3 s4 s5 log show ?thesis by blast
qed

theorem getvote_queries_per_whitelisted_witness:
  "run_vote_monitor three_proposal_node =
     Inr (header @ [CHR 0x0A] @ ''- PKA'',
          [(1, ''A''), (2, ''A''), (3, ''A''), (1, ''B''), (2, ''B''), (3, ''B'')]) \<and>
   find_whitelisted_federation_addresses three_proposal_node [''A'', ''B''] = Inr [''A'', ''B''] \<and>
   get_last_completed_proposal_id three_proposal_node 4 = Inr 3"
proof -
  have r: "run_vote_monitor three_proposal_node =
     Inr (header @ [CHR 0x0A] @ ''- PKA'',
          [(1, ''A''), (2, ''A''), (3, ''A''), (1, ''B''), (2, ''B''), (3, ''B'')])"
    by (simp add: run_eval)
  have w: "find_whitelisted_federation_addresses three_proposal_node [''A'', ''B''] =
      Inr [''A'', ''B'']"
    by (simp add: run_eval)
  have b: "get_last_completed_proposal_id three_proposal_node 4 = Inr 3"
    by (simp add: run_eval)
  from getvote_queries_per_whitelisted [OF r] r w b show ?thesis by simp
qed

text \<open>
  Against C5 as stated: in this run \<open>B = 3\<close>, the two addresses \<open>A\<close> and \<open>B\<close> are
  whitelisted and only \<open>A\<close> is eligible, and six \<^verbatim>\<open>GetVote\<close> queries are issued, three
  of them for the address that the filter then drops.
\<close>

theorem ineligible_address_is_queried:
  "get_address_to_fedkey_map three_proposal_node 6 = Inr [(''A'', ''PKA''), (''B'', ''PKB'')] \<and>
   tabulate_fed_member_votes three_proposal_node [''A'', ''B''] 3 [] =
     Inr ([(''A'', \<lparr>NoVote = [1, 2, 3], No = [], Yes = []\<rparr>),
           (''B'', \<lparr>NoVote = [1, 2, 3], No = [], Yes = []\<rparr>)],
          [(1, ''A''), (2, ''A''), (3, ''A''), (1, ''B''), (2, ''B''), (3, ''B'')]) \<and>
   run_vote_monitor three_proposal_node =
     Inr (header @ [CHR 0x0A] @ ''- PKA'',
          [(1, ''A''), (2, ''A''), (3, ''A''), (1, ''B''), (2, ''B''), (3, ''B'')]) \<and>
   get_last_completed_proposal_id three_proposal_node 4 = Inr 3 \<and>
   filter_eligible_fedkeys three_proposal_node
     [(''A'', \<lparr>NoVote = [1, 2, 3], No = [], Yes = []\<rparr>),
      (''B'', \<lparr>NoVote = [1, 2, 3], No = [], Yes = []\<rparr>)]
     [(''A'', ''PKA''), (''B'', ''PKB'')] 3 =
     Inr [(''A'', \<lparr>NoVote = [1, 2, 3], No = [], Yes = []\<rparr>)]"
  by (simp add: run_eval)


subsection \<open>Fewer than three completed proposals\<close>

lemma report_of_none: "markdown_format_output [] = header"
  by (simp add: markdown_format_output_def)

text \<open>
  C9 (as amended). Take a run whose stages before the eligibility filter return (the
  members, the resolver, the last proposal id, the last completed proposal id \<open>B\<close>, the
  whitelist and the tabulation) and in which \<open>B\<close> is below 3. Then \<open>B\<close> is 1 or 2, so
  the ids \<open>B - 2\<close> and \<open>B - 1\<close> are \<open>-1\<close> and 0, or 0 and 1. When the node also answers
  the deadline query at \<open>B - 2\<close> and the federation query at the height it returned, the
  filter and the detection return, no key is flagged, and the run returns the report
  that is the header alone.
\<close>

theorem short_history_run:
  assumes "get_current_federation_pubkeys nd = Inr pubkeys"
    and "get_address_to_fedkey_map nd (int (length pubkeys) * 3) = Inr m"
    and "get_last_proposal_id nd = Inr H"
    and "get_last_completed_proposal_id nd H = Inr B"
    and "B < 3"
    and "find_whitelisted_federation_addresses nd (map fst m) = Inr wl"
    and "tabulate_fed_member_votes nd wl B [] = Inr (fmv, log)"
    and "GetVotingDeadline nd (B - 2) = Inr h"
    and "federation_at_height nd h = Inr fed"
  shows "(B = 1 \<or> B = 2) \<and>
    (\<exists>fmv'. filter_eligible_fedkeys nd fmv m B = Inr fmv' \<and>
            get_nonvoting_fedkeys_in_last_3_proposals m fmv' B = Inr []) \<and>
    run_vote_monitor nd = Inr (header, log)"
proof -
  from last_completed_positive [OF assms(4)] assms(5) have B: "B = 1 \<or> B = 2" by auto
  from assms(7) have loop: "address_loop nd B wl [] log0 = Inr (fmv, log)" if "log0 = []" for log0
    using that by (simp add: tabulate_fed_member_votes_def)
  from address_loop_keys [OF loop] have keys: "fst ` set fmv = set wl" by simp
  from assms(6) have "whitelist_loop nd (map fst m) [] = Inr wl"
    by (simp add: find_whitelisted_federation_addresses_def)
  from whitelist_loop_subset [OF this] have "set wl \<subseteq> set (map fst m)" by simp
  with keys have "fst ` set fmv \<subseteq> fst ` set m" by simp
  from eligible_loop_total [OF this] obtain fmv' where
    el: "eligible_loop fed m fmv [] = Inr fmv'" by blast
  then have f: "filter_eligible_fedkeys nd fmv m B = Inr fmv'"
    using assms(8,9) by (simp add: filter_eligible_fedkeys_def get_proposal_ending_height_def)
  from address_loop_bounded [OF loop] have "\<forall>(k, v) \<in> set fmv. set (NoVote v) \<subseteq> {1..B}"
    by simp
  moreover from eligible_loop_entries [OF el] have "set fmv' \<subseteq> set fmv" by auto
  ultimately have "\<forall>(k, v) \<in> set fmv'. set (NoVote v) \<subseteq> {1..B}" by blast
  then have "\<forall>(k, v) \<in> set fmv'. B - 2 \<notin> set (NoVote v)"
    using assms(5) by fastforce
  then have n: "get_nonvoting_fedkeys_in_last_3_proposals m fmv' B = Inr []"
    by (simp add: get_nonvoting_fedkeys_in_last_3_proposals_def nonvoting_loop_none)
  have "run_vote_monitor nd = Inr (header, log)"
    using assms(1,2,3,4,6,7) f n by (simp add: run_vote_monitor_def report_of_none)
  with B f n show ?thesis by blast
qed

theorem short_history_run_witness:
  "get_last_completed_proposal_id one_proposal_node 2 = Inr 1 \<and>
   GetVotingDeadline one_proposal_node (1 - 2) = Inr 0 \<and>
   run_vote_monitor one_proposal_node = Inr (header, [(1, ''A''), (1, ''B'')])"
proof -
  let ?r = "\<lparr>NoVote = [1 :: int], No = [], Yes = []\<rparr>"
  have h1: "get_current_federation_pubkeys one_proposal_node = Inr [''PKA'', ''PKB'']"
    by (simp add: run_eval)
  have h2: "get_address_to_fedkey_map one_proposal_node (int (length [''PKA'', ''PKB'']) * 3) =
      Inr [(''A'', ''PKA''), (''B'', ''PKB'')]"
    by (simp add: run_eval)
  have h3: "get_last_proposal_id one_proposal_node = Inr 2"
    by (simp add: run_eval)
  have h4: "get_last_completed_proposal_id one_proposal_node 2 = Inr 1"
    by (simp add: run_eval)
  have h5: "(1 :: int) < 3" by simp
  have h6: "find_whitelisted_federation_addresses one_proposal_node
      (map fst [(''A'', ''PKA''), (''B'', ''PKB'')]) = Inr [''A'', ''B'']"
    by (simp add: run_eval)
  have h7: "tabulate_fed_member_votes one_proposal_node [''A'', ''B''] 1 [] =
      Inr ([(''A'', ?r), (''B'', ?r)], [(1, ''A''), (1, ''B'')])"
    by (simp add: run_eval)
  have h8: "GetVotingDeadline one_proposal_node (1 - 2) = Inr 0"
    by (simp add: one_proposal_node_def table_node_def)
  have h9: "federation_at_height one_proposal_node 0 = Inr [''PKA'']"
    by (simp add: one_proposal_node_def table_node_def)
  from short_history_run [OF h1 h2 h3 h4 h5 h6 h7 h8 h9] h4 h8 show ?thesis by simp
qed

text \<open>
  Against C9 as stated: with \<open>B = 2\<close> the run completes on a node that refuses every
  negative proposal id, so no negative id is looked up; with \<open>B = 1\<close> the same node
  makes the run fail, so the run completes only if the node answers at \<open>-1\<close>.
\<close>

theorem no_negative_id_with_two:
  "get_last_completed_proposal_id (rejecting_negative_ids two_proposal_node) 2 = Inr 2 \<and>
   run_vote_monitor (rejecting_negative_ids two_proposal_node) =
     Inr (header, [(1, ''A''), (2, ''A''), (1, ''B''), (2, ''B'')])"
  by (simp add: run_eval)

lemma negative_id_with_one:
  "get_last_completed_proposal_id (rejecting_negative_ids one_proposal_node) 2 = Inr 1 \<and>
   run_vote_monitor (rejecting_negative_ids one_proposal_node) = Inl NodeError"
  by (simp add: run_eval)

end
